theory Spec2Isabelle
  imports Complex_Main "HOL-Library.Log_Nat"
begin

section \<open>JavaScript values\<close>

text \<open>
  The form engine of \<^verbatim>\<open>InnerForm.svelte\<close> stores arbitrary JavaScript values in its
  fields.  A value is modelled as a tree.  A number is an IEEE double: a finite one is the
  rational it denotes (the two zeros are one, as \<open>===\<close> and truthiness see them), the
  others are the two infinities and \<open>NaN\<close>.  An array or object carries the reference it lives at: JavaScript
  compares arrays and objects by reference, so \<open>===\<close> looks at that number only.  An
  object keeps its own properties in insertion order; properties inherited from a prototype
  are not modelled.
\<close>

datatype jsnum = Fin rat | PosInf | NegInf | NaN

datatype jsval =
    Undefined
  | Null
  | Bool bool
  | Num jsnum
  | Str string
  | Arr nat "jsval list"
  | Obj nat "(string \<times> jsval) list"

abbreviation N :: "int \<Rightarrow> jsval" where
  "N k \<equiv> Num (Fin (of_int k))"

text \<open>Truthiness, as \<open>if (v)\<close>, \<open>!v\<close>, \<open>a || b\<close> and \<open>a && b\<close> test it.\<close>

fun truthy :: "jsval \<Rightarrow> bool" where
  "truthy Undefined = False"
| "truthy Null = False"
| "truthy (Bool b) = b"
| "truthy (Num (Fin k)) = (k \<noteq> 0)"
| "truthy (Num PosInf) = True"
| "truthy (Num NegInf) = True"
| "truthy (Num NaN) = False"
| "truthy (Str s) = (s \<noteq> [])"
| "truthy (Arr r xs) = True"
| "truthy (Obj r ps) = True"

text \<open>\<open>v == null\<close>: the value is absent (\<open>null\<close> or \<open>undefined\<close>).\<close>

fun nullish :: "jsval \<Rightarrow> bool" where
  "nullish Undefined = True"
| "nullish Null = True"
| "nullish v = False"

text \<open>\<open>a ?? b\<close>\<close>

definition coalesce :: "jsval \<Rightarrow> jsval \<Rightarrow> jsval" where
  "coalesce a b = (if nullish a then b else a)"

text \<open>\<open>a === b\<close>: by value on primitives (\<open>NaN\<close> equals nothing), by reference on
  arrays and objects.\<close>

fun strict_eq :: "jsval \<Rightarrow> jsval \<Rightarrow> bool" where
  "strict_eq Undefined Undefined = True"
| "strict_eq Null Null = True"
| "strict_eq (Bool a) (Bool b) = (a = b)"
| "strict_eq (Num a) (Num b) = (a \<noteq> NaN \<and> a = b)"
| "strict_eq (Str a) (Str b) = (a = b)"
| "strict_eq (Arr r xs) (Arr r' ys) = (r = r')"
| "strict_eq (Obj r ps) (Obj r' qs) = (r = r')"
| "strict_eq a b = False"

subsection \<open>Arithmetic on numbers\<close>

text \<open>
  JavaScript computes \<open>a + b\<close> and \<open>a - b\<close> on doubles: the exact result is rounded to the
  nearest double, ties to the one with an even significand, and to an infinity from
  \<open>2^1024\<close> on.  A finite double is \<open>m * 2^e\<close> with \<open>\<bar>m\<bar> < 2^53\<close> and
  \<open>-1074 \<le> e \<le> 971\<close>.
\<close>

text \<open>\<open>\<lfloor>log\<^sub>2 a\<rfloor>\<close> of a positive rational, from the bit lengths of its numerator and denominator.\<close>

definition floor_log2 :: "rat \<Rightarrow> int" where
  "floor_log2 a =
     (let (p, q) = quotient_of a; d = bitlen p - bitlen q
      in if 2 powi d \<le> a then d else d - 1)"

definition round_half_even :: "rat \<Rightarrow> int" where
  "round_half_even q =
     (let f = \<lfloor>q\<rfloor>; r = q - of_int f
      in if r < 1 / 2 then f else if 1 / 2 < r then f + 1 else if even f then f else f + 1)"

definition round_double :: "rat \<Rightarrow> jsnum" where
  "round_double x =
     (if x = 0 then Fin 0
      else let e = max (floor_log2 \<bar>x\<bar> - 52) (- 1074);
               y = of_int (round_half_even (x / 2 powi e)) * 2 powi e
           in if 2 ^ 1024 \<le> \<bar>y\<bar> then (if 0 < x then PosInf else NegInf) else Fin y)"

text \<open>\<open>a + b\<close>, \<open>-a\<close> and \<open>a - b\<close> on numbers.\<close>

fun dadd :: "jsnum \<Rightarrow> jsnum \<Rightarrow> jsnum" where
  "dadd (Fin a) (Fin b) = round_double (a + b)"
| "dadd NaN b = NaN"
| "dadd a NaN = NaN"
| "dadd PosInf NegInf = NaN"
| "dadd NegInf PosInf = NaN"
| "dadd PosInf b = PosInf"
| "dadd NegInf b = NegInf"
| "dadd a PosInf = PosInf"
| "dadd a NegInf = NegInf"

fun dneg :: "jsnum \<Rightarrow> jsnum" where
  "dneg (Fin a) = Fin (- a)"
| "dneg PosInf = NegInf"
| "dneg NegInf = PosInf"
| "dneg NaN = NaN"

definition dsub :: "jsnum \<Rightarrow> jsnum \<Rightarrow> jsnum" where
  "dsub a b = dadd a (dneg b)"

text \<open>\<^verbatim>\<open>Math.max(a, b)\<close>: \<open>NaN\<close> when an argument is \<open>NaN\<close>.\<close>

fun Math_max :: "jsnum \<Rightarrow> jsnum \<Rightarrow> jsnum" where
  "Math_max NaN b = NaN"
| "Math_max a NaN = NaN"
| "Math_max PosInf b = PosInf"
| "Math_max a PosInf = PosInf"
| "Math_max NegInf b = b"
| "Math_max a NegInf = a"
| "Math_max (Fin a) (Fin b) = Fin (max a b)"

subsection \<open>Objects\<close>

type_synonym props = "(string \<times> jsval) list"

text \<open>\<open>o[k]\<close> on the own properties: \<open>undefined\<close> when the key is missing.\<close>

definition obj_get :: "props \<Rightarrow> string \<Rightarrow> jsval" where
  "obj_get ps k = (case map_of ps k of None \<Rightarrow> Undefined | Some v \<Rightarrow> v)"

text \<open>\<open>o[k] = v\<close>: an existing key keeps its place, a new key goes last.\<close>

primrec obj_set :: "props \<Rightarrow> string \<Rightarrow> jsval \<Rightarrow> props" where
  "obj_set [] k v = [(k, v)]"
| "obj_set (p # ps) k v = (if fst p = k then (k, v) # ps else p # obj_set ps k v)"

text \<open>
  A property key is an array index when it is the canonical decimal form of an integer below
  \<open>2^32 - 1\<close>.  JavaScript enumerates the own keys of an object with the array indices first,
  in ascending order, and the other keys after them in insertion order; \<open>Object.entries\<close>
  and \<open>Object.values\<close> follow that order.
\<close>

definition digit_of :: "char \<Rightarrow> nat option" where
  "digit_of c = map_of
     [(CHR ''0'', 0), (CHR ''1'', 1), (CHR ''2'', 2), (CHR ''3'', 3), (CHR ''4'', 4),
      (CHR ''5'', 5), (CHR ''6'', 6), (CHR ''7'', 7), (CHR ''8'', 8), (CHR ''9'', 9)] c"

primrec decimal :: "nat \<Rightarrow> string \<Rightarrow> nat option" where
  "decimal acc [] = Some acc"
| "decimal acc (c # cs) =
     (case digit_of c of None \<Rightarrow> None | Some d \<Rightarrow> decimal (10 * acc + d) cs)"

definition array_index :: "string \<Rightarrow> nat option" where
  "array_index s =
     (if s = [] \<or> (hd s = CHR ''0'' \<and> s \<noteq> ''0'') then None
      else case decimal 0 s of
             None \<Rightarrow> None
           | Some n \<Rightarrow> if n < 4294967295 then Some n else None)"

definition is_index_key :: "string \<times> jsval \<Rightarrow> bool" where
  "is_index_key p = (array_index (fst p) \<noteq> None)"

definition index_of_key :: "string \<times> jsval \<Rightarrow> nat" where
  "index_of_key p = (case array_index (fst p) of None \<Rightarrow> 0 | Some n \<Rightarrow> n)"

definition object_entries :: "props \<Rightarrow> props" where
  "object_entries ps =
     sort_key index_of_key (filter is_index_key ps) @ filter (\<lambda>p. \<not> is_index_key p) ps"

definition object_values :: "props \<Rightarrow> jsval list" where
  "object_values ps = map snd (object_entries ps)"

subsection \<open>Property access on any value\<close>

datatype exn = TypeError

text \<open>
  \<open>v?.[k]\<close>: an array answers its indices and \<open>length\<close>, a string its characters and
  \<open>length\<close>, every other primitive \<open>undefined\<close>.  Only own properties are answered: what
  a value inherits from its prototype (\<^verbatim>\<open>constructor\<close>, \<^verbatim>\<open>toString\<close> and the like) is not
  modelled, so a field is taken not to bear the name of an inherited property.
\<close>

definition elem_at :: "jsval list \<Rightarrow> string \<Rightarrow> jsval" where
  "elem_at xs k =
     (if k = ''length'' then N (int (length xs))
      else case array_index k of
             None \<Rightarrow> Undefined
           | Some i \<Rightarrow> if i < length xs then xs ! i else Undefined)"

fun get_prop :: "jsval \<Rightarrow> string \<Rightarrow> jsval" where
  "get_prop (Obj r ps) k = obj_get ps k"
| "get_prop (Arr r xs) k = elem_at xs k"
| "get_prop (Str s) k = elem_at (map (\<lambda>c. Str [c]) s) k"
| "get_prop v k = Undefined"

text \<open>\<open>v[k]\<close> without the \<open>?.\<close>: reading a property of \<open>null\<close> or \<open>undefined\<close> throws.\<close>

definition js_index :: "jsval \<Rightarrow> string \<Rightarrow> exn + jsval" where
  "js_index v k = (if nullish v then Inl TypeError else Inr (get_prop v k))"

subsection \<open>The helpers of the UI toolkit\<close>

text \<open>
  Modelled from the spec: the module behind \<^verbatim>\<open>Helpers\<close> (\<^verbatim>\<open>@budibase/bbui\<close>) is not
  among the sources.  The specification describes its functions as "structural utilities
  assumed available (deep clone, nested path get/set using dotted or bracket paths, unique
  ID generation)".  A path such as \<^verbatim>\<open>a.b[0].c\<close> is cut at every dot and opening bracket,
  closing brackets dropped.
\<close>

fun toPath_from :: "string \<Rightarrow> string \<Rightarrow> string list" where
  "toPath_from acc [] = [rev acc]"
| "toPath_from acc (c # cs) =
     (if c = CHR ''.'' \<or> c = CHR ''['' then rev acc # toPath_from [] cs
      else if c = CHR '']'' then toPath_from acc cs
      else toPath_from (c # acc) cs)"

definition toPath :: "string \<Rightarrow> string list" where
  "toPath key = toPath_from [] key"

text \<open>
  Modelled from the spec: \<^verbatim>\<open>Helpers.deepGet(obj, key)\<close>, the nested lookup of a path; a
  step through a missing or primitive value yields \<open>undefined\<close>.
\<close>

definition deepGet :: "jsval \<Rightarrow> string \<Rightarrow> jsval" where
  "deepGet obj key = foldl get_prop obj (toPath key)"

text \<open>
  An object literal \<^verbatim>\<open>{}\<close> allocated while the code runs.  The model gives it the
  reference 0; nothing the code does compares it to another object.
\<close>

definition fresh_object :: jsval where
  "fresh_object = Obj 0 []"

text \<open>
  \<open>v[k] = x\<close> as a value: the object or array with the property written.  An array grows to
  hold the index (the gap reads \<open>undefined\<close>); a property that is not an index is not kept
  on an array, and nothing is written on a primitive.
\<close>

fun set_prop :: "jsval \<Rightarrow> string \<Rightarrow> jsval \<Rightarrow> jsval" where
  "set_prop (Obj r ps) k x = Obj r (obj_set ps k x)"
| "set_prop (Arr r xs) k x =
     (case array_index k of
        None \<Rightarrow> Arr r xs
      | Some i \<Rightarrow>
          if i < length xs then Arr r (xs[i := x])
          else Arr r (xs @ replicate (i - length xs) Undefined @ [x]))"
| "set_prop v k x = v"

text \<open>
  Modelled from the spec: \<^verbatim>\<open>Helpers.deepSet(obj, key, value)\<close>, the nested write of a
  path.  The JavaScript mutates \<open>obj\<close>; the model returns the object after the write.  A
  missing (absent) step of the path is created as an empty object.
\<close>

fun set_path :: "jsval \<Rightarrow> string list \<Rightarrow> jsval \<Rightarrow> jsval" where
  "set_path cur [] x = cur"
| "set_path cur [k] x = set_prop cur k x"
| "set_path cur (k # k' # ks) x =
     (let child = get_prop cur k;
          child' = (if nullish child then fresh_object else child)
      in set_prop cur k (set_path child' (k' # ks) x))"

definition deepSet :: "jsval \<Rightarrow> string \<Rightarrow> jsval \<Rightarrow> jsval" where
  "deepSet obj key x = set_path obj (toPath key) x"

text \<open>
  Modelled from the spec: \<^verbatim>\<open>Helpers.cloneDeep(v)\<close>.  Values are trees here, so the deep
  clone of a value is the same tree; the references it carries are read by \<open>===\<close> only,
  which the derivation of the form value never applies.
\<close>

definition cloneDeep :: "jsval \<Rightarrow> jsval" where
  "cloneDeep v = v"

section \<open>The state of the form engine\<close>

text \<open>
  \<^verbatim>\<open>fieldState\<close> of a field.  The validator is \<open>None\<close> when validation is disabled for
  the form (\<^verbatim>\<open>validator = null\<close>); otherwise it maps a value to an error or to an absent
  value.  \<open>lastUpdate\<close> is a reading of \<^verbatim>\<open>Date.now()\<close>.
\<close>

record fieldState =
  fieldId :: string
  value' :: jsval
  error :: jsval
  disabled :: bool
  defaultValue :: jsval
  validator :: "(jsval \<Rightarrow> jsval) option"
  lastUpdate :: int

text \<open>
  One entry of the array \<^verbatim>\<open>fields\<close>.  The \<^verbatim>\<open>fieldApi\<close> of an entry is a set of closures
  over the field's name; the model's field operations take that name instead.
\<close>

record field =
  name :: string
  type' :: string
  step :: int
  fieldState :: fieldState
  fieldSchema :: jsval

text \<open>
  The component instance: the array \<^verbatim>\<open>fields\<close>, the store \<^verbatim>\<open>currentStep\<close>, the props
  (\<^verbatim>\<open>initialValues\<close>, \<^verbatim>\<open>disabled\<close>, \<^verbatim>\<open>schema\<close>, \<^verbatim>\<open>table\<close>,
  \<^verbatim>\<open>disableValidation\<close>) and what the component reads from outside:
  \<^item> \<open>createValidatorFromConstraints\<close>, imported from \<^verbatim>\<open>./validation\<close> (not among the
    sources), taken as a parameter;
  \<^item> the clock: \<open>now k\<close> is what the \<open>k\<close>-th call of \<^verbatim>\<open>Date.now()\<close> returns, \<open>ticks\<close>
    counts the calls made so far.
  \<open>vcalls\<close> is a trace added by the model: every invocation of a validator appends the
  field's name and the argument, so that "runs the validator" can be stated.
\<close>

record form =
  fields' :: "field list"
  currentStep :: jsnum
  initialValues :: jsval
  disabled' :: bool
  schema :: jsval
  table :: jsval
  disableValidation :: bool
  createValidatorFromConstraints :: "jsval \<Rightarrow> jsval \<Rightarrow> string \<Rightarrow> jsval \<Rightarrow> jsval \<Rightarrow> jsval"
  now :: "nat \<Rightarrow> int"
  ticks :: nat
  vcalls :: "(string \<times> jsval) list"

text \<open>\<^verbatim>\<open>Date.now()\<close>\<close>

definition Date_now :: "form \<Rightarrow> int \<times> form" where
  "Date_now s = (now s (ticks s), s\<lparr>ticks := Suc (ticks s)\<rparr>)"

text \<open>\<^verbatim>\<open>validator?.(v)\<close> on behalf of field \<open>n\<close>: \<open>undefined\<close> without a validator.\<close>

definition verdict :: "(jsval \<Rightarrow> jsval) option \<Rightarrow> jsval \<Rightarrow> jsval" where
  "verdict vd v = (case vd of None \<Rightarrow> Undefined | Some f \<Rightarrow> f v)"

definition run_validator :: "form \<Rightarrow> string \<Rightarrow> (jsval \<Rightarrow> jsval) option \<Rightarrow> jsval \<Rightarrow> jsval \<times> form" where
  "run_validator s n vd v =
     (verdict vd v, case vd of None \<Rightarrow> s | Some f \<Rightarrow> s\<lparr>vcalls := vcalls s @ [(n, v)]\<rparr>)"

text \<open>\<^verbatim>\<open>getField\<close>: the first entry with the name, if any.\<close>

definition getField :: "field list \<Rightarrow> string \<Rightarrow> field option" where
  "getField fs n = find (\<lambda>f. name f = n) fs"

text \<open>
  \<^verbatim>\<open>getField(n).update(fn)\<close>: the store that \<^verbatim>\<open>getField\<close> finds is updated in place,
  so the array keeps its order.
\<close>

primrec update_field :: "string \<Rightarrow> (fieldState \<Rightarrow> fieldState) \<Rightarrow> field list \<Rightarrow> field list" where
  "update_field n g [] = []"
| "update_field n g (f # fs) =
     (if name f = n then f\<lparr>fieldState := g (fieldState f)\<rparr> # fs
      else f # update_field n g fs)"

section \<open>Derived stores\<close>

text \<open>
  \<^verbatim>\<open>deriveFieldProperty\<close>: the reducer \<^verbatim>\<open>(map, field) => ({ ...map, [field.name]:
  getProp(field) })\<close> run over the fields, from the empty object.
\<close>

definition deriveFieldProperty :: "field list \<Rightarrow> (field \<Rightarrow> jsval) \<Rightarrow> props" where
  "deriveFieldProperty fieldStores getProp =
     foldl (\<lambda>m f. obj_set m (name f) (getProp f)) [] fieldStores"

definition values' :: "field list \<Rightarrow> props" where
  "values' fs = deriveFieldProperty fs (\<lambda>f. value' (fieldState f))"

definition errors :: "field list \<Rightarrow> props" where
  "errors fs = deriveFieldProperty fs (\<lambda>f. error (fieldState f))"

text \<open>\<^verbatim>\<open>valid = !Object.values($errors).some(error => error != null)\<close>\<close>

definition valid :: "field list \<Rightarrow> bool" where
  "valid fs = (\<not> list_ex (\<lambda>e. \<not> nullish e) (object_values (errors fs)))"

text \<open>
  The url that \<^verbatim>\<open>deriveBindingEnrichments\<close> computes for the value of an attachment
  field: \<^verbatim>\<open>null\<close>, unless the value is an array whose element 0 is present.
\<close>

definition first_url :: "jsval \<Rightarrow> jsval" where
  "first_url v =
     (case v of
        Arr r xs \<Rightarrow>
          if \<not> nullish (elem_at xs ''0'') then get_prop (elem_at xs ''0'') ''url'' else Null
      | _ \<Rightarrow> Null)"

definition deriveBindingEnrichments :: "field list \<Rightarrow> props" where
  "deriveBindingEnrichments fieldStores =
     foldl (\<lambda>enrichments f.
              if type' f = ''attachment''
              then obj_set enrichments (name f @ ''_first'') (first_url (value' (fieldState f)))
              else enrichments)
       [] fieldStores"

subsection \<open>Sorting\<close>

text \<open>
  \<^verbatim>\<open>deriveFormValue\<close> sorts with the comparator \<^verbatim>\<open>(a, b) => a.lastUpdate >
  b.lastUpdate\<close>.  It returns a boolean, which \<^verbatim>\<open>Array.prototype.sort\<close> converts to a
  number: 1 for \<open>true\<close>, 0 for \<open>false\<close>.  An entry is the triple of \<^verbatim>\<open>key\<close>,
  \<^verbatim>\<open>value\<close> and \<^verbatim>\<open>lastUpdate\<close>.
\<close>

type_synonym entry = "string \<times> jsval \<times> int"

definition by_lastUpdate :: "entry \<Rightarrow> entry \<Rightarrow> int" where
  "by_lastUpdate a b = (if snd (snd a) > snd (snd b) then 1 else 0)"

text \<open>
  ECMAScript leaves the order that \<^verbatim>\<open>sort\<close> produces to the engine when the comparator
  is not consistent, so \<^verbatim>\<open>deriveFormValue\<close> takes the engine's \<^verbatim>\<open>sort\<close> as a
  parameter.  What follows is the sort of V8 (Chrome, Node.js; \<^verbatim>\<open>array-sort.tq\<close>) as it
  runs on an array of fewer than 64 elements, where its minimal run length is the length of
  the array: it measures the run the array starts with (reversing it when it descends) and
  inserts every later element by binary search.  Each decision is the test \<open>order < 0\<close>.
\<close>

fun run_rest :: "('a \<Rightarrow> 'a \<Rightarrow> int) \<Rightarrow> bool \<Rightarrow> 'a \<Rightarrow> 'a list \<Rightarrow> nat" where
  "run_rest cmp isDescending previous [] = 0"
| "run_rest cmp isDescending previous (current # rest) =
     (let order = cmp current previous
      in if (if isDescending then order \<ge> 0 else order < 0) then 0
         else Suc (run_rest cmp isDescending current rest))"

definition CountAndMakeRun :: "('a \<Rightarrow> 'a \<Rightarrow> int) \<Rightarrow> 'a list \<Rightarrow> nat \<times> 'a list" where
  "CountAndMakeRun cmp xs =
     (case xs of
        [] \<Rightarrow> (0, xs)
      | [x] \<Rightarrow> (1, xs)
      | elementHigh # elementLow # rest \<Rightarrow>
          let isDescending = (cmp elementLow elementHigh < 0);
              runLength = 2 + run_rest cmp isDescending elementLow rest
          in (runLength,
              if isDescending then rev (take runLength xs) @ drop runLength xs else xs))"

function find_left :: "('a \<Rightarrow> 'a \<Rightarrow> int) \<Rightarrow> 'a \<Rightarrow> 'a list \<Rightarrow> nat \<Rightarrow> nat \<Rightarrow> nat" where
  "find_left cmp pivot xs left right =
     (if left < right
      then (let mid = left + (right - left) div 2
            in if cmp pivot (xs ! mid) < 0 then find_left cmp pivot xs left mid
               else find_left cmp pivot xs (mid + 1) right)
      else left)"
  by pat_completeness auto
termination
  by (relation "measure (\<lambda>(cmp, pivot, xs, left, right). right - left)") auto

definition insert_pivot :: "('a \<Rightarrow> 'a \<Rightarrow> int) \<Rightarrow> nat \<Rightarrow> 'a list \<Rightarrow> 'a list" where
  "insert_pivot cmp start xs =
     (let pivot = xs ! start;
          left = find_left cmp pivot xs 0 start
      in take left xs @ [pivot] @ take (start - left) (drop left xs) @ drop (Suc start) xs)"

definition BinaryInsertionSort :: "('a \<Rightarrow> 'a \<Rightarrow> int) \<Rightarrow> nat \<Rightarrow> 'a list \<Rightarrow> 'a list" where
  "BinaryInsertionSort cmp startArg xs =
     fold (insert_pivot cmp) [(if startArg = 0 then 1 else startArg)..<length xs] xs"

definition v8_sort :: "('a \<Rightarrow> 'a \<Rightarrow> int) \<Rightarrow> 'a list \<Rightarrow> 'a list" where
  "v8_sort cmp xs =
     (if length xs < 2 then xs
      else let (runLength, ys) = CountAndMakeRun cmp xs
           in if runLength < length ys then BinaryInsertionSort cmp runLength ys else ys)"

subsection \<open>The value of the whole form\<close>

text \<open>
  The \<^verbatim>\<open>map\<close> step of \<^verbatim>\<open>deriveFormValue\<close>: every entry of \<^verbatim>\<open>values\<close> with the
  \<^verbatim>\<open>lastUpdate\<close> of the field of that name.  \<^verbatim>\<open>get(field)\<close> throws when
  \<^verbatim>\<open>getField\<close> found nothing.
\<close>

fun with_lastUpdate :: "field list \<Rightarrow> props \<Rightarrow> exn + entry list" where
  "with_lastUpdate fs [] = Inr []"
| "with_lastUpdate fs ((key, v) # rest) =
     (case getField fs key of
        None \<Rightarrow> Inl TypeError
      | Some f \<Rightarrow>
          (case with_lastUpdate fs rest of
             Inl e \<Rightarrow> Inl e
           | Inr es \<Rightarrow>
               Inr ((key, v,
                     (if lastUpdate (fieldState f) = 0 then 0 else lastUpdate (fieldState f)))
                    # es)))"

definition deriveFormValue ::
  "((entry \<Rightarrow> entry \<Rightarrow> int) \<Rightarrow> entry list \<Rightarrow> entry list) \<Rightarrow> field list \<Rightarrow>
   jsval \<Rightarrow> props \<Rightarrow> props \<Rightarrow> exn + jsval" where
  "deriveFormValue sort_impl fs initialValues' vals enrichments =
     (let formValue = cloneDeep (if truthy initialValues' then initialValues' else fresh_object)
      in case with_lastUpdate fs (object_entries vals) of
           Inl e \<Rightarrow> Inl e
         | Inr es \<Rightarrow>
             let sortedFields = sort_impl by_lastUpdate es;
                 formValue1 = foldl (\<lambda>fv (key, v, lu). deepSet fv key v) formValue sortedFields;
                 formValue2 = foldl (\<lambda>fv (key, v). deepSet fv key v) formValue1
                                (object_entries enrichments)
             in Inr formValue2)"

text \<open>\<^verbatim>\<open>$: formValue = deriveFormValue(initialValues, $values, $enrichments)\<close>\<close>

definition formValue ::
  "((entry \<Rightarrow> entry \<Rightarrow> int) \<Rightarrow> entry list \<Rightarrow> entry list) \<Rightarrow> form \<Rightarrow> exn + jsval" where
  "formValue sort_impl s =
     deriveFormValue sort_impl (fields' s) (initialValues s) (values' (fields' s))
       (deriveBindingEnrichments (fields' s))"

section \<open>The form API\<close>

text \<open>
  \<^verbatim>\<open>formApi.registerField(field, type, defaultValue = null, fieldDisabled = false,
  validationRules, step = 1)\<close>.  The name is a string or absent (\<open>None\<close>); \<open>uuid\<close> is
  what \<^verbatim>\<open>Helpers.uuid()\<close> returns to this call.  The result is the handle returned (the
  new entry), if any, and the state after the call.  A parameter declared with the default
  \<^verbatim>\<open>null\<close> reads \<open>null\<close> when the caller passes \<open>undefined\<close>.
\<close>

definition default_null :: "jsval \<Rightarrow> jsval" where
  "default_null v = (if v = Undefined then Null else v)"

definition registerField ::
  "form \<Rightarrow> string \<Rightarrow> string option \<Rightarrow> string \<Rightarrow> jsval \<Rightarrow> bool \<Rightarrow> jsval \<Rightarrow> int
   \<Rightarrow> field option \<times> form" where
  "registerField s uuid field typ0 defaultValue0 fieldDisabled validationRules step0 =
     (case field of
        None \<Rightarrow> (None, s)
      | Some fname \<Rightarrow>
          if fname = [] then (None, s)
          else
            let dflt = default_null defaultValue0;
                schemaConstraints = get_prop (get_prop (schema s) fname) ''constraints'';
                vd = (if disableValidation s then None
                      else Some (createValidatorFromConstraints s schemaConstraints
                                   validationRules fname (table s)));
                initialValue0 = coalesce (deepGet (initialValues s) fname) dflt;
                existingField = getField (fields' s) fname;
                fid = (case existingField of
                         None \<Rightarrow> ''id-'' @ uuid
                       | Some e \<Rightarrow> fieldId (fieldState e));
                initialValue = (case existingField of
                                  None \<Rightarrow> initialValue0
                                | Some e \<Rightarrow> coalesce (value' (fieldState e)) initialValue0);
                (initialError, s1) =
                  (case existingField of
                     None \<Rightarrow> (Null, s)
                   | Some e \<Rightarrow>
                       if truthy (error (fieldState e))
                       then run_validator s fname vd initialValue
                       else (Null, s));
                isAutoColumn = truthy (get_prop (get_prop (schema s) fname) ''autocolumn'');
                (t, s2) = Date_now s1;
                fieldInfo =
                  \<lparr>name = fname, type' = typ0, step = (if step0 = 0 then 1 else step0),
                   fieldState =
                     \<lparr>fieldId = fid, value' = initialValue, error = initialError,
                      disabled = (disabled' s \<or> fieldDisabled \<or> isAutoColumn),
                      defaultValue = dflt, validator = vd, lastUpdate = t\<rparr>,
                   fieldSchema = coalesce (get_prop (schema s) fname) fresh_object\<rparr>
            in (Some fieldInfo,
                s2\<lparr>fields' :=
                     (case existingField of
                        Some e \<Rightarrow> filter (\<lambda>info. name info \<noteq> fname) (fields' s2) @ [fieldInfo]
                      | None \<Rightarrow> fields' s2 @ [fieldInfo])\<rparr>))"

subsection \<open>The API of one field\<close>

text \<open>
  \<^verbatim>\<open>setValue(value, skipCheck = false)\<close> of the field \<open>field\<close>.  It returns nothing
  (\<open>None\<close>) when it skips, and \<^verbatim>\<open>!error\<close> otherwise.  \<^verbatim>\<open>get(fieldInfo)\<close> throws when
  the field is not registered.
\<close>

definition setValue :: "form \<Rightarrow> string \<Rightarrow> jsval \<Rightarrow> bool \<Rightarrow> exn + (bool option \<times> form)" where
  "setValue s field v skipCheck =
     (case getField (fields' s) field of
        None \<Rightarrow> Inl TypeError
      | Some fieldInfo \<Rightarrow>
          if \<not> skipCheck \<and> strict_eq (value' (fieldState fieldInfo)) v then Inr (None, s)
          else
            let (err, s1) = run_validator s field (validator (fieldState fieldInfo)) v;
                (t, s2) = Date_now s1
            in Inr (Some (\<not> truthy err),
                    s2\<lparr>fields' :=
                         update_field field
                           (\<lambda>st. st\<lparr>value' := v, error := err, lastUpdate := t\<rparr>)
                           (fields' s2)\<rparr>))"

text \<open>\<^verbatim>\<open>clearValue()\<close> of the field \<open>field\<close>.\<close>

definition clearValue :: "form \<Rightarrow> string \<Rightarrow> exn + form" where
  "clearValue s field =
     (case getField (fields' s) field of
        None \<Rightarrow> Inl TypeError
      | Some fieldInfo \<Rightarrow>
          (case js_index (initialValues s) field of
             Inl e \<Rightarrow> Inl e
           | Inr iv \<Rightarrow>
               let newValue = coalesce iv (defaultValue (fieldState fieldInfo));
                   (t, s1) = Date_now s
               in Inr (s1\<lparr>fields' :=
                            update_field field
                              (\<lambda>st. st\<lparr>value' := newValue, error := Null, lastUpdate := t\<rparr>)
                              (fields' s1)\<rparr>)))"

text \<open>\<^verbatim>\<open>validate()\<close> of the field \<open>field\<close>: it sets the same value again, by force.\<close>

definition field_validate :: "form \<Rightarrow> string \<Rightarrow> exn + (bool option \<times> form)" where
  "field_validate s field =
     (case getField (fields' s) field of
        None \<Rightarrow> Inl TypeError
      | Some f \<Rightarrow> setValue s field (value' (fieldState f)) True)"

text \<open>\<^verbatim>\<open>updateValidation(validationRules)\<close> of the field \<open>field\<close>.\<close>

definition updateValidation :: "form \<Rightarrow> string \<Rightarrow> jsval \<Rightarrow> exn + form" where
  "updateValidation s field validationRules =
     (case getField (fields' s) field of
        None \<Rightarrow> Inl TypeError
      | Some fieldInfo \<Rightarrow>
          let schemaConstraints = get_prop (get_prop (schema s) field) ''constraints'';
              vd = (if disableValidation s then None
                    else Some (createValidatorFromConstraints s schemaConstraints
                                 validationRules field (table s)));
              s1 = s\<lparr>fields' := update_field field (\<lambda>st. st\<lparr>validator := vd\<rparr>) (fields' s)\<rparr>
          in if truthy (error (fieldState fieldInfo))
             then (case setValue s1 field (value' (fieldState fieldInfo)) True of
                     Inl e \<Rightarrow> Inl e
                   | Inr (r, s2) \<Rightarrow> Inr s2)
             else Inr s1)"

text \<open>\<^verbatim>\<open>setDisabled(fieldDisabled)\<close> of the field \<open>field\<close>.\<close>

definition setDisabled :: "form \<Rightarrow> string \<Rightarrow> bool \<Rightarrow> exn + form" where
  "setDisabled s field fieldDisabled =
     (case getField (fields' s) field of
        None \<Rightarrow> Inl TypeError
      | Some fieldInfo \<Rightarrow>
          let isAutoColumn = truthy (get_prop (get_prop (schema s) field) ''autocolumn'')
          in Inr (s\<lparr>fields' :=
                       update_field field
                         (\<lambda>st. st\<lparr>disabled := (disabled' s \<or> fieldDisabled \<or> isAutoColumn)\<rparr>)
                         (fields' s)\<rparr>))"

subsection \<open>Operations on the whole form\<close>

text \<open>
  The loop of \<^verbatim>\<open>formApi.validate\<close>: \<^verbatim>\<open>validationFields.forEach(field => { if
  (!get(field).fieldApi.validate()) { valid = false } })\<close>.  Each entry's API is closed over
  the entry's name, so the loop runs over the names.
\<close>

fun validate_each :: "form \<Rightarrow> string list \<Rightarrow> bool \<Rightarrow> exn + (bool \<times> form)" where
  "validate_each s [] vld = Inr (vld, s)"
| "validate_each s (n # ns) vld =
     (case field_validate s n of
        Inl e \<Rightarrow> Inl e
      | Inr (r, s') \<Rightarrow> validate_each s' ns (if r = Some True then vld else False))"

text \<open>
  \<^verbatim>\<open>formApi.validate(onlyCurrentStep = false)\<close>: the fields it validates, and the call.
\<close>

definition validationFields :: "form \<Rightarrow> bool \<Rightarrow> field list" where
  "validationFields s onlyCurrentStep =
     (if onlyCurrentStep
      then filter (\<lambda>f. strict_eq (N (step f)) (Num (currentStep s))) (fields' s)
      else fields' s)"

definition validate :: "form \<Rightarrow> bool \<Rightarrow> exn + (bool \<times> form)" where
  "validate s onlyCurrentStep =
     validate_each s (map name (validationFields s onlyCurrentStep)) True"

text \<open>\<^verbatim>\<open>formApi.clear\<close>\<close>

fun clear_each :: "form \<Rightarrow> string list \<Rightarrow> exn + form" where
  "clear_each s [] = Inr s"
| "clear_each s (n # ns) =
     (case clearValue s n of Inl e \<Rightarrow> Inl e | Inr s' \<Rightarrow> clear_each s' ns)"

definition clear :: "form \<Rightarrow> exn + form" where
  "clear s = clear_each s (map name (fields' s))"

text \<open>
  \<^verbatim>\<open>formApi.changeStep({ type, number })\<close>.  The parameter \<^verbatim>\<open>number\<close> is a JavaScript
  number or absent (\<open>None\<close>); values of other types are outside the model, so the store
  \<^verbatim>\<open>currentStep\<close> always holds a number.
\<close>

definition num_val :: "jsnum option \<Rightarrow> jsval" where
  "num_val n = (case n of None \<Rightarrow> Undefined | Some k \<Rightarrow> Num k)"

text \<open>\<^verbatim>\<open>isNaN(number)\<close>: \<open>undefined\<close> converts to \<open>NaN\<close>.\<close>

definition isNaN :: "jsnum option \<Rightarrow> bool" where
  "isNaN n = (case n of None \<Rightarrow> True | Some k \<Rightarrow> k = NaN)"

definition changeStep :: "form \<Rightarrow> string \<Rightarrow> jsnum option \<Rightarrow> form" where
  "changeStep s typ0 number =
     (if typ0 = ''next'' then s\<lparr>currentStep := dadd (currentStep s) (Fin 1)\<rparr>
      else if typ0 = ''prev''
      then s\<lparr>currentStep := Math_max (Fin 1) (dsub (currentStep s) (Fin 1))\<rparr>
      else if typ0 = ''first'' then s\<lparr>currentStep := Fin 1\<rparr>
      else if typ0 = ''specific'' \<and> truthy (num_val number) \<and> \<not> isNaN number
      then (case number of Some k \<Rightarrow> s\<lparr>currentStep := k\<rparr> | None \<Rightarrow> s)
      else s)"

text \<open>\<^verbatim>\<open>formApi.setStep(step)\<close>\<close>

definition setStep :: "form \<Rightarrow> jsnum option \<Rightarrow> form" where
  "setStep s n =
     (if truthy (num_val n) then (case n of Some k \<Rightarrow> s\<lparr>currentStep := k\<rparr> | None \<Rightarrow> s)
      else s)"

section \<open>The states a form can reach\<close>

text \<open>
  A mounted component starts with no field, at step 1, with the props and surroundings it
  was given.
\<close>

definition mount ::
  "jsval \<Rightarrow> bool \<Rightarrow> jsval \<Rightarrow> jsval \<Rightarrow> bool \<Rightarrow>
   (jsval \<Rightarrow> jsval \<Rightarrow> string \<Rightarrow> jsval \<Rightarrow> jsval \<Rightarrow> jsval) \<Rightarrow> (nat \<Rightarrow> int) \<Rightarrow> form" where
  "mount iv dis sch tbl dv mk clk =
     \<lparr>fields' = [], currentStep = Fin 1, initialValues = iv, disabled' = dis, schema = sch,
      table = tbl, disableValidation = dv, createValidatorFromConstraints = mk, now = clk,
      ticks = 0, vcalls = []\<rparr>"

text \<open>
  From there the state changes by the calls of the form API and of the field APIs, and by
  the parent component assigning a prop.
\<close>

inductive reachable :: "form \<Rightarrow> bool" where
  r_mount: "reachable (mount iv dis sch tbl dv mk clk)"
| r_registerField: "reachable s \<Longrightarrow> reachable (snd (registerField s uuid field t d fd vr st))"
| r_setValue: "reachable s \<Longrightarrow> setValue s n v skip = Inr (r, s') \<Longrightarrow> reachable s'"
| r_clearValue: "reachable s \<Longrightarrow> clearValue s n = Inr s' \<Longrightarrow> reachable s'"
| r_field_validate: "reachable s \<Longrightarrow> field_validate s n = Inr (r, s') \<Longrightarrow> reachable s'"
| r_updateValidation: "reachable s \<Longrightarrow> updateValidation s n vr = Inr s' \<Longrightarrow> reachable s'"
| r_setDisabled: "reachable s \<Longrightarrow> setDisabled s n fd = Inr s' \<Longrightarrow> reachable s'"
| r_validate: "reachable s \<Longrightarrow> validate s only = Inr (b, s') \<Longrightarrow> reachable s'"
| r_clear: "reachable s \<Longrightarrow> clear s = Inr s' \<Longrightarrow> reachable s'"
| r_changeStep: "reachable s \<Longrightarrow> reachable (changeStep s t number)"
| r_setStep: "reachable s \<Longrightarrow> reachable (setStep s number)"
| r_props: "reachable s \<Longrightarrow>
            reachable (s\<lparr>initialValues := iv, disabled' := dis, schema := sch, table := tbl,
                         disableValidation := dv\<rparr>)"

section \<open>Notions used in the statements\<close>

text \<open>
  Modelled from the spec: the module \<^verbatim>\<open>./validation\<close> behind
  \<^verbatim>\<open>createValidatorFromConstraints\<close> is not among the sources.  The specification gives
  the contract of the validators it makes: "(value) -> errorMessage|absent".  An answer
  conforms when it is absent (\<open>null\<close> or \<open>undefined\<close>) or an error message, a non-empty
  string; a form conforms when every validator its factory can make answers so.
\<close>

definition error_or_absent :: "jsval \<Rightarrow> bool" where
  "error_or_absent e =
     (case e of Undefined \<Rightarrow> True | Null \<Rightarrow> True | Str m \<Rightarrow> m \<noteq> [] | _ \<Rightarrow> False)"

definition conforming :: "form \<Rightarrow> bool" where
  "conforming s =
     (\<forall>c r n t v. error_or_absent (createValidatorFromConstraints s c r n t v))"

text \<open>
  What a conforming form keeps true of its fields: every stored error and every answer of a
  field's validator is an error message or absent.
\<close>

definition errors_conform :: "field list \<Rightarrow> bool" where
  "errors_conform fs =
     (\<forall>f \<in> set fs. error_or_absent (error (fieldState f)) \<and>
                    (\<forall>v. error_or_absent (verdict (validator (fieldState f)) v)))"

text \<open>
  What \<^verbatim>\<open>validate()\<close> of the field returns: \<^verbatim>\<open>!error\<close>, for the error that the field's
  validator answers to the field's current value.
\<close>

definition validates :: "field \<Rightarrow> bool" where
  "validates f = (\<not> truthy (verdict (validator (fieldState f)) (value' (fieldState f))))"

text \<open>
  The field is valid: its validator finds no error in its current value, that is, answers an
  absent error.
\<close>

definition passes :: "field \<Rightarrow> bool" where
  "passes f = nullish (verdict (validator (fieldState f)) (value' (fieldState f)))"

text \<open>
  The field after its \<^verbatim>\<open>validate()\<close> ran at time \<open>t\<close>: the value is kept, the error is the
  validator's answer, \<^verbatim>\<open>lastUpdate\<close> is \<open>t\<close>.
\<close>

definition revalidated :: "int \<Rightarrow> field \<Rightarrow> field" where
  "revalidated t f =
     f\<lparr>fieldState := (fieldState f)
         \<lparr>error := verdict (validator (fieldState f)) (value' (fieldState f)),
          lastUpdate := t\<rparr>\<rparr>"

text \<open>The validator invocations that validating the fields \<open>fs\<close> adds to the trace.\<close>

definition validator_calls :: "field list \<Rightarrow> (string \<times> jsval) list" where
  "validator_calls fs =
     map (\<lambda>f. (name f, value' (fieldState f))) (filter (\<lambda>f. validator (fieldState f) \<noteq> None) fs)"

section \<open>Example forms\<close>

text \<open>A clock that advances by one millisecond at every reading.\<close>

definition example_clock :: "nat \<Rightarrow> int" where
  "example_clock k = 1000 + int k"

text \<open>
  Two validator factories.  The validators of \<open>required\<close> answer \<^verbatim>\<open>"Required"\<close> to an
  absent or empty value and \<open>null\<close> to any other; those of \<open>by_rules\<close> do so when the
  validation rules they were made from are truthy, and accept every value otherwise.
\<close>

definition required :: "jsval \<Rightarrow> jsval \<Rightarrow> string \<Rightarrow> jsval \<Rightarrow> jsval \<Rightarrow> jsval" where
  "required constraints rules fname tbl v =
     (if nullish v \<or> v = Str [] then Str ''Required'' else Null)"

definition by_rules :: "jsval \<Rightarrow> jsval \<Rightarrow> string \<Rightarrow> jsval \<Rightarrow> jsval \<Rightarrow> jsval" where
  "by_rules constraints rules fname tbl v =
     (if truthy rules \<and> (nullish v \<or> v = Str []) then Str ''Required'' else Null)"

text \<open>A form with \<^verbatim>\<open>initialValues = {}\<close>, before any field is registered.\<close>

definition example_form :: form where
  "example_form = mount (Obj 1 []) False Undefined Undefined False required example_clock"

text \<open>
  The scenario of the specification: \<^verbatim>\<open>name\<close> (text, default \<^verbatim>\<open>""\<close>) on step 1 and
  \<^verbatim>\<open>age\<close> (number, no default) on step 2.
\<close>

definition example_two_steps :: form where
  "example_two_steps =
     snd (registerField
            (snd (registerField example_form ''u1'' (Some ''name'') ''text'' (Str []) False
                    Undefined 1))
            ''u2'' (Some ''age'') ''number'' Undefined False Undefined 2)"

text \<open>The same form after \<^verbatim>\<open>validate(true)\<close> on step 1.\<close>

definition example_validated :: form where
  "example_validated = snd (projr (validate example_two_steps True))"

text \<open>
  A form whose validators depend on the validation rules: the field \<^verbatim>\<open>name\<close> is
  registered with a rule (default \<^verbatim>\<open>""\<close>) and validated, so it holds the error
  \<^verbatim>\<open>"Required"\<close>.
\<close>

definition example_ruled :: form where
  "example_ruled =
     snd (projr (validate
       (snd (registerField
               (mount (Obj 1 []) False Undefined Undefined False by_rules example_clock)
               ''u1'' (Some ''name'') ''text'' (Str []) False (Bool True) 1))
       False))"

text \<open>
  A form mounted without \<^verbatim>\<open>initialValues\<close> (the prop has no default), with one field
  \<^verbatim>\<open>a\<close> of default \<^verbatim>\<open>"d"\<close>.
\<close>

definition example_no_initialValues :: form where
  "example_no_initialValues =
     snd (registerField
            (mount Undefined False Undefined Undefined False required example_clock)
            ''u1'' (Some ''a'') ''text'' (Str ''d'') False Undefined 1)"

text \<open>
  A form with \<^verbatim>\<open>initialValues = {a: "init"}\<close>: the field \<^verbatim>\<open>a\<close> of default \<^verbatim>\<open>"d"\<close>
  is registered and then set to \<^verbatim>\<open>""\<close>, which its validator refuses.
\<close>

definition example_initial :: form where
  "example_initial =
     snd (projr (setValue
       (snd (registerField
               (mount (Obj 1 [(''a'', Str ''init'')]) False Undefined Undefined False required
                  example_clock)
               ''u1'' (Some ''a'') ''text'' (Str ''d'') False Undefined 1))
       ''a'' (Str []) False))"

text \<open>
  Two attachment fields, \<^verbatim>\<open>files\<close> with the value \<^verbatim>\<open>[{url: "a"}, {url: "b"}]\<close> and
  \<^verbatim>\<open>none\<close> with the value \<^verbatim>\<open>[]\<close>, and a text field.
\<close>

definition example_attachments :: form where
  "example_attachments =
     snd (registerField
            (snd (registerField
                    (snd (registerField example_form ''u1'' (Some ''files'') ''attachment''
                            (Arr 2 [Obj 3 [(''url'', Str ''a'')], Obj 4 [(''url'', Str ''b'')]])
                            False Undefined 1))
                    ''u2'' (Some ''none'') ''attachment'' (Arr 5 []) False Undefined 1))
            ''u3'' (Some ''title'') ''text'' (Str ''t'') False Undefined 1)"

text \<open>A form with \<^verbatim>\<open>initialValues = {x: {y: 7}}\<close>, before any field is registered.\<close>

definition example_nested :: form where
  "example_nested =
     mount (Obj 1 [(''x'', Obj 2 [(''y'', N 7)])]) False Undefined Undefined False required
       example_clock"

text \<open>
  A JSON field \<^verbatim>\<open>x\<close> registered with the value \<^verbatim>\<open>{y: 1}\<close>, then the nested field
  \<^verbatim>\<open>x.y\<close> registered with the value 2, then \<^verbatim>\<open>x\<close> set to \<^verbatim>\<open>{y: 5}\<close>: the field
  \<^verbatim>\<open>x\<close> is first in the array and has the later \<^verbatim>\<open>lastUpdate\<close>.
\<close>

definition example_json :: form where
  "example_json =
     snd (projr (setValue
       (snd (registerField
               (snd (registerField example_form ''u1'' (Some ''x'') ''json''
                       (Obj 2 [(''y'', N 1)]) False Undefined 1))
               ''u2'' (Some ''x.y'') ''number'' (N 2) False Undefined 1))
       ''x'' (Obj 3 [(''y'', N 5)]) False))"

section \<open>Evaluation and basic facts\<close>

lemmas js_defs = coalesce_def obj_get_def array_index_def digit_of_def is_index_key_def
  index_of_key_def object_entries_def object_values_def elem_at_def js_index_def toPath_def
  deepGet_def fresh_object_def deepSet_def cloneDeep_def

lemmas form_defs = Date_now_def verdict_def run_validator_def getField_def
  deriveFieldProperty_def values'_def errors_def valid_def first_url_def
  deriveBindingEnrichments_def default_null_def registerField_def setValue_def clearValue_def
  field_validate_def validationFields_def validate_def clear_def num_val_def isNaN_def
  changeStep_def setStep_def Let_def

lemmas example_defs = example_clock_def required_def by_rules_def mount_def
  example_form_def example_two_steps_def example_validated_def example_ruled_def
  example_no_initialValues_def example_initial_def example_attachments_def example_nested_def
  example_json_def

subsection \<open>Objects built by assignment have distinct keys\<close>

lemma obj_set_keys:
  "map fst (obj_set ps k v) = (if k \<in> set (map fst ps) then map fst ps else map fst ps @ [k])"
  by (induction ps) auto

lemma obj_set_key_set: "set (map fst (obj_set ps k v)) = insert k (set (map fst ps))"
  by (auto simp: obj_set_keys)

lemma map_of_obj_set: "map_of (obj_set ps k v) = (map_of ps)(k \<mapsto> v)"
  by (induction ps) auto

lemma distinct_obj_set: "distinct (map fst ps) \<Longrightarrow> distinct (map fst (obj_set ps k v))"
  by (simp add: obj_set_keys)

lemma distinct_foldl_obj_set:
  "distinct (map fst m) \<Longrightarrow> distinct (map fst (foldl (\<lambda>m f. obj_set m (key f) (g f)) m fs))"
  by (induction fs arbitrary: m) (auto simp: distinct_obj_set)

lemma distinct_deriveFieldProperty: "distinct (map fst (deriveFieldProperty fs g))"
  unfolding deriveFieldProperty_def by (rule distinct_foldl_obj_set) simp

lemma set_object_entries: "set (object_entries ps) = set ps"
  unfolding object_entries_def by auto

lemma valid_iff_entries: "valid fs \<longleftrightarrow> (\<forall>p \<in> set (errors fs). nullish (snd p))"
  unfolding valid_def object_values_def by (auto simp: list_ex_iff set_object_entries)

subsection \<open>Finding and updating a field\<close>

lemma getField_update_field:
  "getField (update_field n g fs) m =
     (if m = n then map_option (\<lambda>f. f\<lparr>fieldState := g (fieldState f)\<rparr>) (getField fs n)
      else getField fs m)"
  by (induction fs) (auto simp: getField_def)

lemma map_name_update_field: "map name (update_field n g fs) = map name fs"
  by (induction fs) auto

lemma getField_Some_name: "getField fs n = Some f \<Longrightarrow> name f = n \<and> f \<in> set fs"
  unfolding getField_def by (induction fs) (auto split: if_splits)

lemma getField_None_iff: "getField fs n = None \<longleftrightarrow> n \<notin> set (map name fs)"
  unfolding getField_def by (induction fs) auto

lemma getField_distinct:
  "distinct (map name fs) \<Longrightarrow> f \<in> set fs \<Longrightarrow> getField fs (name f) = Some f"
  unfolding getField_def by (induction fs) (auto simp: rev_image_eqI)

lemma getField_filter_other:
  "getField (filter (\<lambda>info. name info \<noteq> n) fs) m = (if m = n then None else getField fs m)"
  unfolding getField_def by (induction fs) auto

lemma getField_append:
  "getField (fs @ [f]) m =
     (case getField fs m of Some x \<Rightarrow> Some x | None \<Rightarrow> if name f = m then Some f else None)"
  unfolding getField_def by (induction fs) auto

subsection \<open>The calls, unfolded\<close>

lemma setValue_skip:
  "getField (fields' s) n = Some f \<Longrightarrow> \<not> skip \<Longrightarrow> strict_eq (value' (fieldState f)) v \<Longrightarrow>
   setValue s n v skip = Inr (None, s)"
  by (simp add: setValue_def)

lemma setValue_run:
  "getField (fields' s) n = Some f \<Longrightarrow> skip \<or> \<not> strict_eq (value' (fieldState f)) v \<Longrightarrow>
   setValue s n v skip =
     Inr (Some (\<not> truthy (verdict (validator (fieldState f)) v)),
          s\<lparr>ticks := Suc (ticks s),
            vcalls := vcalls s @ (if validator (fieldState f) = None then [] else [(n, v)]),
            fields' := update_field n
               (\<lambda>st. st\<lparr>value' := v, error := verdict (validator (fieldState f)) v,
                         lastUpdate := now s (ticks s)\<rparr>) (fields' s)\<rparr>)"
  by (auto simp: setValue_def run_validator_def Date_now_def split: option.splits)

lemma clearValue_run:
  "getField (fields' s) n = Some f \<Longrightarrow> js_index (initialValues s) n = Inr iv \<Longrightarrow>
   clearValue s n =
     Inr (s\<lparr>ticks := Suc (ticks s),
            fields' := update_field n
               (\<lambda>st. st\<lparr>value' := coalesce iv (defaultValue (fieldState f)), error := Null,
                         lastUpdate := now s (ticks s)\<rparr>) (fields' s)\<rparr>)"
  by (auto simp: clearValue_def Date_now_def)

lemma field_validate_run:
  assumes reg: "getField (fields' s) n = Some f"
  shows "field_validate s n =
     Inr (Some (validates f),
          s\<lparr>ticks := Suc (ticks s),
            vcalls := vcalls s @ validator_calls [f],
            fields' := update_field n
               (\<lambda>st. st\<lparr>value' := value' (fieldState f),
                         error := verdict (validator (fieldState f)) (value' (fieldState f)),
                         lastUpdate := now s (ticks s)\<rparr>) (fields' s)\<rparr>)"
proof -
  have n: "name f = n" using reg by (simp add: getField_Some_name)
  show ?thesis
    using reg by (simp add: field_validate_def setValue_run validates_def validator_calls_def n)
qed

lemma registerField_existing:
  assumes ex: "getField (fields' s) n = Some e" and ne: "n \<noteq> []"
  shows "registerField s uuid (Some n) t d fd vr st =
    (let vd = (if disableValidation s then None
               else Some (createValidatorFromConstraints s
                            (get_prop (get_prop (schema s) n) ''constraints'') vr n (table s)));
         v = coalesce (value' (fieldState e)) (coalesce (deepGet (initialValues s) n) (default_null d));
         rerun = truthy (error (fieldState e));
         f = \<lparr>name = n, type' = t, step = (if st = 0 then 1 else st),
              fieldState =
                \<lparr>fieldId = fieldId (fieldState e), value' = v,
                 error = (if rerun then verdict vd v else Null),
                 disabled = (disabled' s \<or> fd \<or>
                             truthy (get_prop (get_prop (schema s) n) ''autocolumn'')),
                 defaultValue = default_null d, validator = vd, lastUpdate = now s (ticks s)\<rparr>,
              fieldSchema = coalesce (get_prop (schema s) n) fresh_object\<rparr>
     in (Some f,
         s\<lparr>ticks := Suc (ticks s),
           vcalls := vcalls s @ (if rerun \<and> \<not> disableValidation s then [(n, v)] else []),
           fields' := filter (\<lambda>info. name info \<noteq> n) (fields' s) @ [f]\<rparr>))"
  using ex ne
  by (auto simp: registerField_def Let_def run_validator_def Date_now_def split: option.splits)

lemma registerField_new:
  assumes ex: "getField (fields' s) n = None" and ne: "n \<noteq> []"
  shows "registerField s uuid (Some n) t d fd vr st =
    (let vd = (if disableValidation s then None
               else Some (createValidatorFromConstraints s
                            (get_prop (get_prop (schema s) n) ''constraints'') vr n (table s)));
         f = \<lparr>name = n, type' = t, step = (if st = 0 then 1 else st),
              fieldState =
                \<lparr>fieldId = ''id-'' @ uuid,
                 value' = coalesce (deepGet (initialValues s) n) (default_null d),
                 error = Null,
                 disabled = (disabled' s \<or> fd \<or>
                             truthy (get_prop (get_prop (schema s) n) ''autocolumn'')),
                 defaultValue = default_null d, validator = vd, lastUpdate = now s (ticks s)\<rparr>,
              fieldSchema = coalesce (get_prop (schema s) n) fresh_object\<rparr>
     in (Some f, s\<lparr>ticks := Suc (ticks s), fields' := fields' s @ [f]\<rparr>))"
  using ex ne
  by (auto simp: registerField_def Let_def run_validator_def Date_now_def split: option.splits)

subsection \<open>Field names are unique in every reachable state\<close>

lemma setValue_names: "setValue s n v skip = Inr (r, s') \<Longrightarrow> map name (fields' s') = map name (fields' s)"
  by (auto simp: setValue_def run_validator_def Date_now_def Let_def map_name_update_field
           split: option.splits if_splits)

lemma clearValue_names: "clearValue s n = Inr s' \<Longrightarrow> map name (fields' s') = map name (fields' s)"
  by (auto simp: clearValue_def Date_now_def Let_def map_name_update_field
           split: option.splits sum.splits)

lemma field_validate_names:
  "field_validate s n = Inr (r, s') \<Longrightarrow> map name (fields' s') = map name (fields' s)"
  by (auto simp: field_validate_def split: option.splits dest: setValue_names)

lemma validate_each_names:
  "validate_each s ns b = Inr (r, s') \<Longrightarrow> map name (fields' s') = map name (fields' s)"
proof (induction ns arbitrary: s b)
  case Nil
  then show ?case by simp
next
  case (Cons n ns)
  then show ?case
    by (auto split: sum.splits dest!: field_validate_names)
qed

lemma clear_each_names:
  "clear_each s ns = Inr s' \<Longrightarrow> map name (fields' s') = map name (fields' s)"
proof (induction ns arbitrary: s)
  case Nil
  then show ?case by simp
next
  case (Cons n ns)
  then show ?case
    by (auto split: sum.splits dest!: clearValue_names)
qed

lemma updateValidation_names:
  "updateValidation s n vr = Inr s' \<Longrightarrow> map name (fields' s') = map name (fields' s)"
  by (auto simp: updateValidation_def Let_def map_name_update_field
           split: option.splits if_splits sum.splits dest!: setValue_names)

lemma setDisabled_names:
  "setDisabled s n fd = Inr s' \<Longrightarrow> map name (fields' s') = map name (fields' s)"
  by (auto simp: setDisabled_def Let_def map_name_update_field split: option.splits)

lemma registerField_distinct:
  assumes "distinct (map name (fields' s))"
  shows "distinct (map name (fields' (snd (registerField s uuid field t d fd vr st))))"
proof (cases "field = None \<or> field = Some []")
  case True
  then show ?thesis using assms by (auto simp: registerField_def)
next
  case False
  then obtain n where n: "field = Some n" "n \<noteq> []" by auto
  show ?thesis
  proof (cases "getField (fields' s) n")
    case None
    then have "n \<notin> set (map name (fields' s))" by (simp add: getField_None_iff)
    then show ?thesis using assms n
      by (simp add: registerField_new [OF None n(2)] Let_def)
  next
    case (Some e)
    have "distinct (map name (filter (\<lambda>info. name info \<noteq> n) (fields' s)))"
      using assms by (simp add: distinct_map_filter)
    then show ?thesis using n
      by (auto simp: registerField_existing [OF Some n(2)] Let_def)
  qed
qed

lemma reachable_distinct: "reachable s \<Longrightarrow> distinct (map name (fields' s))"
proof (induction rule: reachable.induct)
  case (r_mount iv dis sch tbl dv mk clk)
  then show ?case by (simp add: mount_def)
next
  case (r_registerField s uuid field t d fd vr st)
  from r_registerField.IH show ?case by (rule registerField_distinct)
next
  case (r_validate s only b s')
  then show ?case by (auto simp: validate_def dest!: validate_each_names)
next
  case (r_clear s s')
  then show ?case by (auto simp: clear_def dest!: clear_each_names)
next
  case (r_changeStep s t number)
  then show ?case by (auto simp: changeStep_def split: option.splits jsnum.splits)
next
  case (r_setStep s number)
  then show ?case by (auto simp: setStep_def split: option.splits jsnum.splits)
qed (auto dest!: setValue_names clearValue_names field_validate_names updateValidation_names
          setDisabled_names)

subsection \<open>The loop of the form's validate\<close>

lemma validate_each_spec:
  assumes "distinct (map name fs)" and "set fs \<subseteq> set (fields' s)"
    and "distinct (map name (fields' s))"
  shows "\<exists>s'. validate_each s (map name fs) b = Inr (b \<and> list_all validates fs, s') \<and>
           (\<forall>m. m \<notin> set (map name fs) \<longrightarrow> getField (fields' s') m = getField (fields' s) m) \<and>
           (\<forall>f \<in> set fs. \<exists>t. getField (fields' s') (name f) = Some (revalidated t f)) \<and>
           vcalls s' = vcalls s @ validator_calls fs \<and>
           s'\<lparr>fields' := fields' s, ticks := ticks s, vcalls := vcalls s\<rparr> = s"
  using assms
proof (induction fs arbitrary: s b)
  case Nil
  then show ?case by (simp add: validator_calls_def)
next
  case (Cons f fs)
  let ?n = "name f"
  have reg: "getField (fields' s) ?n = Some f"
    using Cons.prems by (simp add: getField_distinct)
  let ?g = "\<lambda>st. st\<lparr>value' := value' (fieldState f),
                       error := verdict (validator (fieldState f)) (value' (fieldState f)),
                       lastUpdate := now s (ticks s)\<rparr>"
  let ?s1 = "s\<lparr>ticks := Suc (ticks s), vcalls := vcalls s @ validator_calls [f],
               fields' := update_field ?n ?g (fields' s)\<rparr>"
  have step: "field_validate s ?n = Inr (Some (validates f), ?s1)"
    by (rule field_validate_run [OF reg])
  have other: "\<And>m. m \<noteq> ?n \<Longrightarrow> getField (fields' ?s1) m = getField (fields' s) m"
    by (simp add: getField_update_field)
  have same: "getField (fields' ?s1) ?n = Some (revalidated (now s (ticks s)) f)"
    by (simp add: getField_update_field reg revalidated_def)
  have notin: "?n \<notin> set (map name fs)" using Cons.prems(1) by simp
  have sub: "set fs \<subseteq> set (fields' ?s1)"
  proof
    fix x assume x: "x \<in> set fs"
    then have xs: "x \<in> set (fields' s)" using Cons.prems(2) by auto
    have "name x \<noteq> ?n" using x notin by (metis image_eqI set_map)
    then have "getField (fields' ?s1) (name x) = getField (fields' s) (name x)" by (rule other)
    also have "\<dots> = Some x" using Cons.prems(3) xs by (simp add: getField_distinct)
    finally show "x \<in> set (fields' ?s1)" by (simp add: getField_Some_name)
  qed
  have d1: "distinct (map name (fields' ?s1))"
    using Cons.prems(3) by (simp add: map_name_update_field)
  have dfs: "distinct (map name fs)" using Cons.prems(1) by simp
  from Cons.IH [OF dfs sub d1, of "b \<and> validates f"]
  obtain s' where
    run: "validate_each ?s1 (map name fs) (b \<and> validates f) = Inr ((b \<and> validates f) \<and> list_all validates fs, s')"
    and fr: "\<forall>m. m \<notin> set (map name fs) \<longrightarrow> getField (fields' s') m = getField (fields' ?s1) m"
    and upd: "\<forall>f \<in> set fs. \<exists>t. getField (fields' s') (name f) = Some (revalidated t f)"
    and vc: "vcalls s' = vcalls ?s1 @ validator_calls fs"
    and rest: "s'\<lparr>fields' := fields' ?s1, ticks := ticks ?s1, vcalls := vcalls ?s1\<rparr> = ?s1"
    by blast
  have r1: "validate_each s (map name (f # fs)) b = Inr (b \<and> list_all validates (f # fs), s')"
    using step run by (auto simp: conj_commute conj_left_commute)
  have r2: "\<forall>m. m \<notin> set (map name (f # fs)) \<longrightarrow> getField (fields' s') m = getField (fields' s) m"
    using fr other by auto
  have r3: "\<forall>x \<in> set (f # fs). \<exists>t. getField (fields' s') (name x) = Some (revalidated t x)"
    using upd fr notin same by auto
  have r4: "vcalls s' = vcalls s @ validator_calls (f # fs)"
    using vc by (simp add: validator_calls_def)
  have r5: "s'\<lparr>fields' := fields' s, ticks := ticks s, vcalls := vcalls s\<rparr> = s"
  proof -
    have "s'\<lparr>fields' := fields' s, ticks := ticks s, vcalls := vcalls s\<rparr> =
          (s'\<lparr>fields' := fields' ?s1, ticks := ticks ?s1, vcalls := vcalls ?s1\<rparr>)
            \<lparr>fields' := fields' s, ticks := ticks s, vcalls := vcalls s\<rparr>"
      by simp
    also have "\<dots> = ?s1\<lparr>fields' := fields' s, ticks := ticks s, vcalls := vcalls s\<rparr>"
      by (simp only: rest)
    also have "\<dots> = s" by simp
    finally show ?thesis .
  qed
  from r1 r2 r3 r4 r5 show ?case by blast
qed

subsection \<open>Enrichments, field by field\<close>

lemma enrichments_snoc:
  "deriveBindingEnrichments (fs @ [f]) =
     (if type' f = ''attachment''
      then obj_set (deriveBindingEnrichments fs) (name f @ ''_first'')
             (first_url (value' (fieldState f)))
      else deriveBindingEnrichments fs)"
  by (simp add: deriveBindingEnrichments_def)

lemma enrichments_keys:
  "set (map fst (deriveBindingEnrichments fs)) =
     {name f @ ''_first'' | f. f \<in> set fs \<and> type' f = ''attachment''}"
proof (induction fs rule: rev_induct)
  case Nil
  then show ?case by (simp add: deriveBindingEnrichments_def)
next
  case (snoc f fs)
  have "set (map fst (deriveBindingEnrichments (fs @ [f]))) =
        (if type' f = ''attachment''
         then insert (name f @ ''_first'') (set (map fst (deriveBindingEnrichments fs)))
         else set (map fst (deriveBindingEnrichments fs)))"
    by (simp only: enrichments_snoc obj_set_key_set if_distrib [of "\<lambda>ps. set (map fst ps)"])
  then show ?case unfolding snoc.IH by auto
qed

lemma enrichments_lookup:
  "distinct (map name fs) \<Longrightarrow> f \<in> set fs \<Longrightarrow> type' f = ''attachment'' \<Longrightarrow>
   map_of (deriveBindingEnrichments fs) (name f @ ''_first'') =
     Some (first_url (value' (fieldState f)))"
proof (induction fs rule: rev_induct)
  case Nil
  then show ?case by simp
next
  case (snoc x fs)
  show ?case
  proof (cases "f = x")
    case True
    then show ?thesis using snoc.prems by (simp add: enrichments_snoc map_of_obj_set)
  next
    case False
    then have f: "f \<in> set fs" using snoc.prems by simp
    have "name x \<notin> set (map name fs)" using snoc.prems(1) by simp
    moreover have "name f \<in> set (map name fs)" using f by simp
    ultimately have "name f \<noteq> name x" by metis
    moreover have "map_of (deriveBindingEnrichments fs) (name f @ ''_first'') =
        Some (first_url (value' (fieldState f)))"
      using snoc.IH snoc.prems f by simp
    ultimately show ?thesis by (simp add: enrichments_snoc map_of_obj_set)
  qed
qed

subsection \<open>V8's sort under a comparator that is never negative\<close>

lemma run_rest_nonneg:
  "(\<And>a b. 0 \<le> cmp a b) \<Longrightarrow> run_rest cmp False previous xs = length xs"
  by (induction xs arbitrary: previous) (auto simp: Let_def not_less)

lemma CountAndMakeRun_nonneg:
  assumes "\<And>a b. 0 \<le> cmp a b"
  shows "CountAndMakeRun cmp xs = (length xs, xs)"
proof -
  have "\<not> cmp a b < 0" for a b using assms [of a b] by simp
  then show ?thesis
    by (auto simp: CountAndMakeRun_def Let_def run_rest_nonneg [OF assms] split: list.splits)
qed

lemma v8_sort_nonneg: "(\<And>a b. 0 \<le> cmp a b) \<Longrightarrow> v8_sort cmp xs = xs"
  by (simp add: v8_sort_def CountAndMakeRun_nonneg)

lemma v8_sort_by_lastUpdate: "v8_sort by_lastUpdate es = es"
  by (rule v8_sort_nonneg) (simp add: by_lastUpdate_def)

subsection \<open>Sums and differences of integers are exact up to \<open>2^53\<close>\<close>

lemma bitlen_one: "bitlen 1 = 1"
  by (simp add: bitlen_alt_def)

lemma floor_log2_of_int:
  assumes "0 < k"
  shows "floor_log2 (of_int k) = bitlen k - 1"
proof -
  have b: "1 \<le> bitlen k" using assms by (auto simp: bitlen_alt_def)
  have "(2::int) ^ nat (bitlen k - 1) \<le> k" using bitlen_bounds [OF assms] by simp
  then have "(of_int ((2::int) ^ nat (bitlen k - 1)) :: rat) \<le> of_int k"
    by (simp only: of_int_le_iff)
  then have "(2::rat) powi (bitlen k - 1) \<le> of_int k"
    using b by (simp add: power_int_def)
  then show ?thesis
    by (simp add: floor_log2_def quotient_of_int bitlen_one)
qed

lemma round_half_even_of_int: "round_half_even (of_int n) = n"
  by (simp add: round_half_even_def)

lemma bitlen_le_54:
  assumes "0 < k" and "k \<le> 2 ^ 53"
  shows "1 \<le> bitlen k \<and> bitlen k \<le> 54 \<and> (bitlen k = 54 \<longrightarrow> k = 2 ^ 53)"
proof -
  have b1: "1 \<le> bitlen k" using assms(1) by (auto simp: bitlen_alt_def)
  have lo: "(2::int) ^ nat (bitlen k - 1) \<le> k" using bitlen_bounds [OF assms(1)] by simp
  have b2: "bitlen k \<le> 54"
  proof (rule ccontr)
    assume "\<not> bitlen k \<le> 54"
    then have "54 \<le> nat (bitlen k - 1)" by simp
    then have "(2::int) ^ 54 \<le> 2 ^ nat (bitlen k - 1)"
      by (intro power_increasing) simp_all
    with lo assms(2) show False by simp
  qed
  have b3: "k = 2 ^ 53" if "bitlen k = 54"
  proof -
    from that have "nat (bitlen k - 1) = 53" by simp
    with lo have "(2::int) ^ 53 \<le> k" by simp
    with assms(2) show ?thesis by simp
  qed
  from b1 b2 b3 show ?thesis by blast
qed

lemma round_double_int:
  assumes "\<bar>k\<bar> \<le> 2 ^ 53"
  shows "round_double (of_int k) = Fin (of_int k)"
proof (cases "k = 0")
  case True
  then show ?thesis by (simp add: round_double_def)
next
  case False
  then have pos: "0 < \<bar>k\<bar>" by simp
  from bitlen_le_54 [OF pos assms]
  have b1: "1 \<le> bitlen \<bar>k\<bar>" and b2: "bitlen \<bar>k\<bar> \<le> 54"
    and b3: "bitlen \<bar>k\<bar> = 54 \<longrightarrow> \<bar>k\<bar> = 2 ^ 53"
    by blast+
  define e where "e = max (floor_log2 \<bar>of_int k\<bar> - 52) (- 1074)"
  have "floor_log2 \<bar>of_int k :: rat\<bar> = floor_log2 (of_int \<bar>k\<bar>)" by simp
  also have "\<dots> = bitlen \<bar>k\<bar> - 1" by (rule floor_log2_of_int [OF pos])
  finally have fl: "floor_log2 \<bar>of_int k :: rat\<bar> = bitlen \<bar>k\<bar> - 1" .
  have e: "e = bitlen \<bar>k\<bar> - 53" unfolding e_def fl using b1 by simp
  have lt: "\<bar>of_int k :: rat\<bar> < 2 ^ 1024"
  proof -
    have "\<bar>k\<bar> < 2 ^ 1024" using assms by simp
    then have "(of_int \<bar>k\<bar> :: rat) < of_int (2 ^ 1024)" by (simp only: of_int_less_iff)
    then show ?thesis by simp
  qed
  have int: "\<exists>n. (of_int k :: rat) / 2 powi e = of_int n \<and> (of_int n :: rat) * 2 powi e = of_int k"
  proof (cases "bitlen \<bar>k\<bar> = 54")
    case True
    then have "\<bar>k\<bar> = 2 ^ 53" using b3 by simp
    then consider "k = 2 ^ 53" | "k = - (2 ^ 53)" by linarith
    then show ?thesis
    proof cases
      case 1
      have "e = 1" using e True by simp
      then show ?thesis unfolding 1 by (intro exI [of _ "2 ^ 52"]) simp
    next
      case 2
      have "e = 1" using e True by simp
      then show ?thesis unfolding 2 by (intro exI [of _ "- (2 ^ 52)"]) simp
    qed
  next
    case False
    then have le: "e \<le> 0" using e b2 by simp
    have p: "(2::rat) powi e = inverse (2 ^ nat (- e))"
      using le by (cases "e = 0") (simp_all add: power_int_def power_one_over inverse_eq_divide)
    show ?thesis
      by (intro exI [of _ "k * 2 ^ nat (- e)"]) (simp add: p divide_inverse)
  qed
  then obtain n where n1: "(of_int k :: rat) / 2 powi e = of_int n"
    and n2: "(of_int n :: rat) * 2 powi e = of_int k" by blast
  have "round_double (of_int k) =
        (let y = of_int (round_half_even (of_int k / 2 powi e)) * 2 powi e
         in if 2 ^ 1024 \<le> \<bar>y\<bar> then (if 0 < (of_int k :: rat) then PosInf else NegInf) else Fin y)"
    using False by (simp add: round_double_def e_def Let_def)
  also have "\<dots> = Fin (of_int k)"
    using lt by (simp add: n1 round_half_even_of_int n2 Let_def)
  finally show ?thesis .
qed

lemma dadd_int:
  "\<bar>a + b\<bar> \<le> 2 ^ 53 \<Longrightarrow> dadd (Fin (of_int a)) (Fin (of_int b)) = Fin (of_int (a + b))"
  using round_double_int [of "a + b"] by simp

lemma dsub_int:
  "\<bar>a - b\<bar> \<le> 2 ^ 53 \<Longrightarrow> dsub (Fin (of_int a)) (Fin (of_int b)) = Fin (of_int (a - b))"
  using round_double_int [of "a - b"] by (simp add: dsub_def)

lemma bitlen_2_53_1: "bitlen 9007199254740993 = 54"
  by (simp add: compute_bitlen)

lemma round_double_2_53_1: "round_double 9007199254740993 = Fin 9007199254740992"
proof -
  have fl: "floor_log2 9007199254740993 = 53"
    using floor_log2_of_int [of 9007199254740993] by (simp add: bitlen_2_53_1)
  have f2: "\<lfloor>(9007199254740993::rat) / 2\<rfloor> = 4503599627370496"
    by (rule floor_unique) simp_all
  show ?thesis
    by (simp add: round_double_def fl round_half_even_def Let_def f2)
qed

subsection \<open>Conforming validators\<close>

lemma error_or_absent_truthy: "error_or_absent e \<Longrightarrow> truthy e = (\<not> nullish e)"
  by (cases e) (auto simp: error_or_absent_def)

lemma error_or_absent_absent [simp]: "error_or_absent Null" "error_or_absent Undefined"
  by (simp_all add: error_or_absent_def)

lemma conforming_cong:
  "createValidatorFromConstraints s' = createValidatorFromConstraints s \<Longrightarrow>
   conforming s' = conforming s"
  by (simp add: conforming_def)

lemma errors_conform_update_field:
  assumes "errors_conform fs"
    and "\<And>f. f \<in> set fs \<Longrightarrow> name f = n \<Longrightarrow>
           error_or_absent (error (g (fieldState f))) \<and>
           (\<forall>v. error_or_absent (verdict (validator (g (fieldState f))) v))"
  shows "errors_conform (update_field n g fs)"
  using assms by (induction fs) (auto simp: errors_conform_def)

lemma errors_conform_getField:
  "errors_conform fs \<Longrightarrow> getField fs n = Some f \<Longrightarrow>
   error_or_absent (error (fieldState f)) \<and>
   (\<forall>v. error_or_absent (verdict (validator (fieldState f)) v))"
  by (auto simp: errors_conform_def dest: getField_Some_name)

lemma setValue_conform:
  assumes "errors_conform (fields' s)" and "setValue s n v skip = Inr (r, s')"
  shows "errors_conform (fields' s') \<and>
         createValidatorFromConstraints s' = createValidatorFromConstraints s"
proof (cases "getField (fields' s) n")
  case None
  then show ?thesis using assms(2) by (simp add: setValue_def)
next
  case (Some f)
  note ok = errors_conform_getField [OF assms(1) Some]
  show ?thesis
  proof (cases "\<not> skip \<and> strict_eq (value' (fieldState f)) v")
    case True
    then show ?thesis using assms Some by (simp add: setValue_skip)
  next
    case False
    then have run: "skip \<or> \<not> strict_eq (value' (fieldState f)) v" by blast
    have "errors_conform (update_field n
             (\<lambda>st. st\<lparr>value' := v, error := verdict (validator (fieldState f)) v,
                       lastUpdate := now s (ticks s)\<rparr>) (fields' s))"
    proof (rule errors_conform_update_field [OF assms(1)])
      fix f' assume "f' \<in> set (fields' s)" "name f' = n"
      then have "error_or_absent (error (fieldState f')) \<and>
                 (\<forall>v. error_or_absent (verdict (validator (fieldState f')) v))"
        using assms(1) by (auto simp: errors_conform_def)
      with ok show "error_or_absent (error (fieldState f'
                \<lparr>value' := v, error := verdict (validator (fieldState f)) v,
                  lastUpdate := now s (ticks s)\<rparr>)) \<and>
           (\<forall>va. error_or_absent (verdict (validator (fieldState f'
                \<lparr>value' := v, error := verdict (validator (fieldState f)) v,
                  lastUpdate := now s (ticks s)\<rparr>)) va))"
        by simp
    qed
    then show ?thesis using assms(2) by (auto simp: setValue_run [OF Some run])
  qed
qed

lemma clearValue_conform:
  assumes "errors_conform (fields' s)" and "clearValue s n = Inr s'"
  shows "errors_conform (fields' s') \<and>
         createValidatorFromConstraints s' = createValidatorFromConstraints s"
proof -
  have "errors_conform (update_field n (\<lambda>st. st\<lparr>value' := x, error := Null, lastUpdate := t\<rparr>)
          (fields' s))" for x t
    by (rule errors_conform_update_field [OF assms(1)])
       (use assms(1) in \<open>auto simp: errors_conform_def\<close>)
  then show ?thesis using assms(2)
    by (auto simp: clearValue_def Date_now_def Let_def split: option.splits sum.splits)
qed

lemma field_validate_conform:
  assumes "errors_conform (fields' s)" and "field_validate s n = Inr (r, s')"
  shows "errors_conform (fields' s') \<and>
         createValidatorFromConstraints s' = createValidatorFromConstraints s"
  using assms by (auto simp: field_validate_def split: option.splits dest: setValue_conform)

lemma validate_each_conform:
  "errors_conform (fields' s) \<Longrightarrow> validate_each s ns b = Inr (r, s') \<Longrightarrow>
   errors_conform (fields' s') \<and>
   createValidatorFromConstraints s' = createValidatorFromConstraints s"
proof (induction ns arbitrary: s b)
  case Nil
  then show ?case by simp
next
  case (Cons n ns)
  from Cons.prems(2) obtain r1 s1 where
    a: "field_validate s n = Inr (r1, s1)"
    and b: "validate_each s1 ns (if r1 = Some True then b else False) = Inr (r, s')"
    by (auto split: sum.splits)
  from field_validate_conform [OF Cons.prems(1) a] Cons.IH [OF _ b] show ?case by simp
qed

lemma clear_each_conform:
  "errors_conform (fields' s) \<Longrightarrow> clear_each s ns = Inr s' \<Longrightarrow>
   errors_conform (fields' s') \<and>
   createValidatorFromConstraints s' = createValidatorFromConstraints s"
proof (induction ns arbitrary: s)
  case Nil
  then show ?case by simp
next
  case (Cons n ns)
  from Cons.prems(2) obtain s1 where
    a: "clearValue s n = Inr s1" and b: "clear_each s1 ns = Inr s'"
    by (auto split: sum.splits)
  from clearValue_conform [OF Cons.prems(1) a] Cons.IH [OF _ b] show ?case by simp
qed

lemma verdict_factory_conform:
  assumes "conforming s"
  shows "error_or_absent
           (verdict (if dv then None else Some (createValidatorFromConstraints s c r n t)) v)"
  using assms by (simp add: verdict_def conforming_def)

lemma registerField_conform:
  assumes "conforming s" and "errors_conform (fields' s)"
  shows "errors_conform (fields' (snd (registerField s uuid field t d fd vr st))) \<and>
         createValidatorFromConstraints (snd (registerField s uuid field t d fd vr st)) =
           createValidatorFromConstraints s"
proof (cases "field = None \<or> field = Some []")
  case True
  then show ?thesis using assms by (auto simp: registerField_def)
next
  case False
  then obtain n where n: "field = Some n" "n \<noteq> []" by auto
  note v = verdict_factory_conform [OF assms(1)]
  show ?thesis
  proof (cases "getField (fields' s) n")
    case None
    show ?thesis using assms(2) v
      by (simp add: n registerField_new [OF None n(2)] Let_def errors_conform_def)
  next
    case (Some e)
    show ?thesis using assms(2) v
      by (simp add: n registerField_existing [OF Some n(2)] Let_def errors_conform_def)
  qed
qed

lemma updateValidation_conform:
  assumes "conforming s" and "errors_conform (fields' s)"
    and "updateValidation s n vr = Inr s'"
  shows "errors_conform (fields' s') \<and>
         createValidatorFromConstraints s' = createValidatorFromConstraints s"
proof (cases "getField (fields' s) n")
  case None
  then show ?thesis using assms(3) by (simp add: updateValidation_def)
next
  case (Some f)
  let ?vd = "if disableValidation s then None
             else Some (createValidatorFromConstraints s
                          (get_prop (get_prop (schema s) n) ''constraints'') vr n (table s))"
  let ?s1 = "s\<lparr>fields' := update_field n (\<lambda>st. st\<lparr>validator := ?vd\<rparr>) (fields' s)\<rparr>"
  have c1: "errors_conform (fields' ?s1)"
    using errors_conform_update_field [OF assms(2), of n "\<lambda>st. st\<lparr>validator := ?vd\<rparr>"]
      assms(2) verdict_factory_conform [OF assms(1)]
    by (auto simp: errors_conform_def)
  show ?thesis
  proof (cases "truthy (error (fieldState f))")
    case True
    then obtain r where "setValue ?s1 n (value' (fieldState f)) True = Inr (r, s')"
      using assms(3) Some by (auto simp: updateValidation_def Let_def split: sum.splits)
    from setValue_conform [OF c1 this] show ?thesis by simp
  next
    case False
    then have "s' = ?s1" using assms(3) Some by (auto simp: updateValidation_def Let_def)
    then show ?thesis using c1 by simp
  qed
qed

lemma setDisabled_conform:
  assumes "errors_conform (fields' s)" and "setDisabled s n fd = Inr s'"
  shows "errors_conform (fields' s') \<and>
         createValidatorFromConstraints s' = createValidatorFromConstraints s"
proof -
  have "errors_conform (update_field n (\<lambda>st. st\<lparr>disabled := x\<rparr>) (fields' s))" for x
    by (rule errors_conform_update_field [OF assms(1)])
       (use assms(1) in \<open>auto simp: errors_conform_def\<close>)
  then show ?thesis using assms(2)
    by (auto simp: setDisabled_def Let_def split: option.splits)
qed

subsection \<open>No call replaces the validator factory\<close>

lemma registerField_factory:
  "createValidatorFromConstraints (snd (registerField s uuid field t d fd vr st)) =
   createValidatorFromConstraints s"
  by (auto simp: registerField_def Let_def run_validator_def Date_now_def
           split: option.splits prod.splits)

lemma setValue_factory:
  "setValue s n v skip = Inr (r, s') \<Longrightarrow>
   createValidatorFromConstraints s' = createValidatorFromConstraints s"
  by (auto simp: setValue_def Let_def run_validator_def Date_now_def
           split: option.splits if_splits)

lemma clearValue_factory:
  "clearValue s n = Inr s' \<Longrightarrow>
   createValidatorFromConstraints s' = createValidatorFromConstraints s"
  by (auto simp: clearValue_def Let_def Date_now_def split: option.splits sum.splits)

lemma field_validate_factory:
  "field_validate s n = Inr (r, s') \<Longrightarrow>
   createValidatorFromConstraints s' = createValidatorFromConstraints s"
  by (auto simp: field_validate_def split: option.splits dest: setValue_factory)

lemma validate_each_factory:
  "validate_each s ns b = Inr (r, s') \<Longrightarrow>
   createValidatorFromConstraints s' = createValidatorFromConstraints s"
proof (induction ns arbitrary: s b)
  case Nil
  then show ?case by simp
next
  case (Cons n ns)
  from Cons.prems obtain r1 s1 where
    a: "field_validate s n = Inr (r1, s1)"
    and b: "validate_each s1 ns (if r1 = Some True then b else False) = Inr (r, s')"
    by (auto split: sum.splits)
  from field_validate_factory [OF a] Cons.IH [OF b] show ?case by simp
qed

lemma clear_each_factory:
  "clear_each s ns = Inr s' \<Longrightarrow>
   createValidatorFromConstraints s' = createValidatorFromConstraints s"
proof (induction ns arbitrary: s)
  case Nil
  then show ?case by simp
next
  case (Cons n ns)
  from Cons.prems obtain s1 where
    a: "clearValue s n = Inr s1" and b: "clear_each s1 ns = Inr s'"
    by (auto split: sum.splits)
  from clearValue_factory [OF a] Cons.IH [OF b] show ?case by simp
qed

lemma updateValidation_factory:
  "updateValidation s n vr = Inr s' \<Longrightarrow>
   createValidatorFromConstraints s' = createValidatorFromConstraints s"
  by (auto simp: updateValidation_def Let_def
           split: option.splits if_splits sum.splits dest!: setValue_factory)

lemma setDisabled_factory:
  "setDisabled s n fd = Inr s' \<Longrightarrow>
   createValidatorFromConstraints s' = createValidatorFromConstraints s"
  by (auto simp: setDisabled_def Let_def split: option.splits)

lemma reachable_conform:
  "reachable s \<Longrightarrow> conforming s \<longrightarrow> errors_conform (fields' s)"
proof (induction rule: reachable.induct)
  case (r_mount iv dis sch tbl dv mk clk)
  then show ?case by (simp add: mount_def errors_conform_def)
next
  case (r_registerField s uuid field t d fd vr st)
  show ?case
  proof
    assume "conforming (snd (registerField s uuid field t d fd vr st))"
    then have cs: "conforming s" by (simp add: conforming_def registerField_factory)
    with r_registerField.IH have "errors_conform (fields' s)" by simp
    from registerField_conform [OF cs this]
    show "errors_conform (fields' (snd (registerField s uuid field t d fd vr st)))" by simp
  qed
next
  case (r_setValue s n v skip r s')
  show ?case
  proof
    assume "conforming s'"
    then have "conforming s"
      by (simp add: conforming_def setValue_factory [OF r_setValue.hyps(2)])
    with r_setValue.IH have "errors_conform (fields' s)" by simp
    from setValue_conform [OF this r_setValue.hyps(2)] show "errors_conform (fields' s')"
      by simp
  qed
next
  case (r_clearValue s n s')
  show ?case
  proof
    assume "conforming s'"
    then have "conforming s"
      by (simp add: conforming_def clearValue_factory [OF r_clearValue.hyps(2)])
    with r_clearValue.IH have "errors_conform (fields' s)" by simp
    from clearValue_conform [OF this r_clearValue.hyps(2)] show "errors_conform (fields' s')"
      by simp
  qed
next
  case (r_field_validate s n r s')
  show ?case
  proof
    assume "conforming s'"
    then have "conforming s"
      by (simp add: conforming_def field_validate_factory [OF r_field_validate.hyps(2)])
    with r_field_validate.IH have "errors_conform (fields' s)" by simp
    from field_validate_conform [OF this r_field_validate.hyps(2)]
    show "errors_conform (fields' s')" by simp
  qed
next
  case (r_updateValidation s n vr s')
  show ?case
  proof
    assume "conforming s'"
    then have cs: "conforming s"
      by (simp add: conforming_def updateValidation_factory [OF r_updateValidation.hyps(2)])
    with r_updateValidation.IH have "errors_conform (fields' s)" by simp
    from updateValidation_conform [OF cs this r_updateValidation.hyps(2)]
    show "errors_conform (fields' s')" by simp
  qed
next
  case (r_setDisabled s n fd s')
  show ?case
  proof
    assume "conforming s'"
    then have "conforming s"
      by (simp add: conforming_def setDisabled_factory [OF r_setDisabled.hyps(2)])
    with r_setDisabled.IH have "errors_conform (fields' s)" by simp
    from setDisabled_conform [OF this r_setDisabled.hyps(2)]
    show "errors_conform (fields' s')" by simp
  qed
next
  case (r_validate s only b s')
  show ?case
  proof
    assume "conforming s'"
    then have "conforming s"
      using r_validate.hyps(2)
      by (simp add: conforming_def validate_def validate_each_factory)
    with r_validate.IH have "errors_conform (fields' s)" by simp
    from validate_each_conform [OF this r_validate.hyps(2) [unfolded validate_def]]
    show "errors_conform (fields' s')" by simp
  qed
next
  case (r_clear s s')
  show ?case
  proof
    assume "conforming s'"
    then have "conforming s"
      using r_clear.hyps(2) by (simp add: conforming_def clear_def clear_each_factory)
    with r_clear.IH have "errors_conform (fields' s)" by simp
    from clear_each_conform [OF this r_clear.hyps(2) [unfolded clear_def]]
    show "errors_conform (fields' s')" by simp
  qed
next
  case (r_changeStep s t number)
  then show ?case
    by (auto simp: changeStep_def conforming_def split: option.splits)
next
  case (r_setStep s number)
  then show ?case
    by (auto simp: setStep_def conforming_def split: option.splits)
next
  case (r_props s iv dis sch tbl dv)
  then show ?case by (simp add: conforming_def)
qed

subsection \<open>The example forms are reachable and conform\<close>

lemma required_conforms: "error_or_absent (required c r n t v)"
  by (simp add: required_def error_or_absent_def)

lemma by_rules_conforms: "error_or_absent (by_rules c r n t v)"
  by (simp add: by_rules_def error_or_absent_def)

lemma example_form_reachable: "reachable example_form"
  unfolding example_form_def by (rule r_mount)

lemma example_two_steps_reachable: "reachable example_two_steps"
  unfolding example_two_steps_def
  by (rule r_registerField, rule r_registerField, rule example_form_reachable)

lemma example_two_steps_conforming: "conforming example_two_steps"
  by (simp add: conforming_def example_two_steps_def registerField_factory example_form_def
        mount_def required_conforms)

lemma example_ruled_reachable: "reachable example_ruled"
proof -
  let ?s = "snd (registerField
               (mount (Obj 1 []) False Undefined Undefined False by_rules example_clock)
               ''u1'' (Some ''name'') ''text'' (Str []) False (Bool True) 1)"
  have r: "reachable ?s" by (rule r_registerField, rule r_mount)
  have "validate ?s False = Inr (fst (projr (validate ?s False)), example_ruled)"
    by (simp add: example_defs form_defs js_defs)
  with r show ?thesis by (rule r_validate)
qed

lemma example_ruled_conforming: "conforming example_ruled"
proof -
  have "createValidatorFromConstraints example_ruled = by_rules"
    by (simp add: example_defs form_defs js_defs)
  then show ?thesis by (simp add: conforming_def by_rules_conforms)
qed

lemma example_no_initialValues_reachable: "reachable example_no_initialValues"
  unfolding example_no_initialValues_def by (rule r_registerField, rule r_mount)

section \<open>The claims\<close>

text \<open>
  Claim C1 says that \<^verbatim>\<open>deriveFormValue\<close> deep-sets the fields in ascending order of
  \<^verbatim>\<open>lastUpdate\<close>, so that of two fields with overlapping paths the one updated later wins.
  The code sorts for that purpose, but its comparator answers \<open>true\<close> or \<open>false\<close>, which
  is 1 or 0 and never negative.  V8's sort moves an element only on a negative answer
  (\<open>v8_sort_by_lastUpdate\<close>), so there the fields are deep-set in the order of
  \<^verbatim>\<open>Object.entries\<close>.  In \<open>example_json\<close> the field \<^verbatim>\<open>x\<close> was updated after
  \<^verbatim>\<open>x.y\<close> and holds \<^verbatim>\<open>{y: 5}\<close>, yet the form value has \<^verbatim>\<open>x.y = 2\<close>: the field
  updated earlier wins.  Under a sort that does order by \<^verbatim>\<open>lastUpdate\<close> the form value
  has \<^verbatim>\<open>x.y = 5\<close>, as the claim says.
\<close>

theorem formValue_later_update_loses_on_v8:
  "map (\<lambda>f. (name f, value' (fieldState f), lastUpdate (fieldState f))) (fields' example_json) =
     [(''x'', Obj 3 [(''y'', N 5)], 1002), (''x.y'', N 2, 1001)] \<and>
   formValue v8_sort example_json = Inr (Obj 1 [(''x'', Obj 3 [(''y'', N 2)])]) \<and>
   formValue (\<lambda>cmp. sort_key (\<lambda>e. snd (snd e))) example_json =
     Inr (Obj 1 [(''x'', Obj 3 [(''y'', N 5)])])"
  by (simp add: formValue_def deriveFormValue_def v8_sort_by_lastUpdate example_defs form_defs
        js_defs)

text \<open>
  Claim C2.  In every state of the form engine, reachable or not, the derived flag
  \<^verbatim>\<open>valid\<close> is true if and only if the derived \<^verbatim>\<open>errors\<close> mapping binds no field name
  to an error that is present (neither \<open>null\<close> nor \<open>undefined\<close>).
\<close>

theorem valid_iff_no_error:
  "valid (fields' s) \<longleftrightarrow> (\<forall>k e. map_of (errors (fields' s)) k = Some e \<longrightarrow> nullish e)"
proof -
  have d: "distinct (map fst (errors (fields' s)))"
    unfolding errors_def by (rule distinct_deriveFieldProperty)
  show ?thesis
    unfolding valid_iff_entries using d by (auto dest: map_of_SomeD)
qed

text \<open>
  In the scenario of the specification, after \<^verbatim>\<open>validate(true)\<close> on step 1 the mapping
  binds \<^verbatim>\<open>name\<close> to \<^verbatim>\<open>"Required"\<close>, and the form is not valid.
\<close>

theorem valid_iff_no_error_witness:
  "map_of (errors (fields' example_validated)) ''name'' = Some (Str ''Required'') \<and>
   \<not> nullish (Str ''Required'') \<and> \<not> valid (fields' example_validated)"
proof -
  have b: "map_of (errors (fields' example_validated)) ''name'' = Some (Str ''Required'')"
    by (simp add: example_defs form_defs js_defs)
  have n: "\<not> nullish (Str ''Required'')" by simp
  from valid_iff_no_error [of example_validated] b n
  have "\<not> valid (fields' example_validated)" by blast
  with b n show ?thesis by blast
qed

text \<open>
  Claim C3.  \<^verbatim>\<open>registerField\<close> called with an absent or empty field name returns no handle
  and leaves the whole state, the field registry included, as it was.
\<close>

theorem registerField_without_name:
  "registerField s uuid None t d fd vr st = (None, s) \<and>
   registerField s uuid (Some []) t d fd vr st = (None, s)"
  by (simp add: registerField_def)

text \<open>
  Claim C4.  In a reachable state of a conforming form, registering a name that is already in
  the registry returns a handle with the \<^verbatim>\<open>fieldId\<close> of the existing entry.  Its value is
  the existing value when that is present (neither \<open>null\<close> nor \<open>undefined\<close>), otherwise the
  deep lookup of the name in \<^verbatim>\<open>initialValues\<close> when that is present, otherwise the new
  \<^verbatim>\<open>defaultValue\<close>; so a present existing value is kept whatever the new default is.  Its
  validator is the one made from the new validation rules.  When the existing entry has an
  error, that new validator is run on the resolved value and its answer is the new error;
  otherwise the new error is \<open>null\<close> and no validator runs.  The new entry replaces the old
  one, and the other fields are untouched.
\<close>

theorem reregister_spec:
  assumes re: "reachable s" and cf: "conforming s"
    and ex: "getField (fields' s) n = Some e" and ne: "n \<noteq> []"
  shows "\<exists>f s'. registerField s uuid (Some n) t d fd vr st = (Some f, s') \<and>
           fieldId (fieldState f) = fieldId (fieldState e) \<and>
           value' (fieldState f) =
             coalesce (value' (fieldState e))
               (coalesce (deepGet (initialValues s) n) (default_null d)) \<and>
           (\<not> nullish (value' (fieldState e)) \<longrightarrow> value' (fieldState f) = value' (fieldState e)) \<and>
           validator (fieldState f) =
             (if disableValidation s then None
              else Some (createValidatorFromConstraints s
                           (get_prop (get_prop (schema s) n) ''constraints'') vr n (table s))) \<and>
           error (fieldState f) =
             (if nullish (error (fieldState e)) then Null
              else verdict (validator (fieldState f)) (value' (fieldState f))) \<and>
           vcalls s' = vcalls s @
             (if nullish (error (fieldState e)) \<or> disableValidation s then []
              else [(n, value' (fieldState f))]) \<and>
           getField (fields' s') n = Some f \<and>
           (\<forall>m. m \<noteq> n \<longrightarrow> getField (fields' s') m = getField (fields' s) m)"
proof -
  have "errors_conform (fields' s)" using re cf by (simp add: reachable_conform)
  from errors_conform_getField [OF this ex]
  have "error_or_absent (error (fieldState e))" by simp
  then have t: "truthy (error (fieldState e)) = (\<not> nullish (error (fieldState e)))"
    by (rule error_or_absent_truthy)
  show ?thesis
    unfolding registerField_existing [OF ex ne] Let_def
    by (auto simp: getField_append getField_filter_other coalesce_def t split: option.splits)
qed

text \<open>
  In \<open>example_ruled\<close> the field \<^verbatim>\<open>name\<close> was registered with a rule and holds \<^verbatim>\<open>""\<close>
  and the error \<^verbatim>\<open>"Required"\<close>.  Registering it again without rules and with the default
  \<^verbatim>\<open>"x"\<close> keeps the id and the value; the validator made from the new rules is run on the
  value and accepts it, so the error is gone.
\<close>

theorem reregister_spec_witness:
  "reachable example_ruled \<and> conforming example_ruled \<and>
   getField (fields' example_ruled) ''name'' = Some (hd (fields' example_ruled)) \<and>
   ''name'' \<noteq> [] \<and>
   (\<exists>f s'. registerField example_ruled ''u2'' (Some ''name'') ''text'' (Str ''x'') False
              Undefined 1 = (Some f, s') \<and>
           fieldId (fieldState f) = ''id-u1'' \<and>
           value' (fieldState f) = Str [] \<and>
           validator (fieldState f) = Some (by_rules Undefined Undefined ''name'' Undefined) \<and>
           error (fieldState f) = Null \<and>
           vcalls s' = [(''name'', Str []), (''name'', Str [])] \<and>
           getField (fields' s') ''name'' = Some f)"
proof -
  let ?e = "hd (fields' example_ruled)"
  have h: "getField (fields' example_ruled) ''name'' = Some ?e"
    by (simp add: example_defs form_defs js_defs)
  have n: "''name'' \<noteq> []" by simp
  have ee: "error (fieldState ?e) = Str ''Required''"
    by (simp add: example_defs form_defs js_defs)
  have ev: "value' (fieldState ?e) = Str []"
    by (simp add: example_defs form_defs js_defs)
  have ei: "fieldId (fieldState ?e) = ''id-u1''"
    by (simp add: example_defs form_defs js_defs)
  have pr: "disableValidation example_ruled = False \<and> schema example_ruled = Undefined \<and>
            table example_ruled = Undefined \<and>
            createValidatorFromConstraints example_ruled = by_rules \<and>
            vcalls example_ruled = [(''name'', Str [])]"
    by (simp add: example_defs form_defs js_defs)
  from reregister_spec [OF example_ruled_reachable example_ruled_conforming h n,
         of "''u2''" "''text''" "Str ''x''" False Undefined 1]
  obtain f s' where
    r: "registerField example_ruled ''u2'' (Some ''name'') ''text'' (Str ''x'') False
          Undefined 1 = (Some f, s')"
    and fid: "fieldId (fieldState f) = fieldId (fieldState ?e)"
    and v: "\<not> nullish (value' (fieldState ?e)) \<longrightarrow> value' (fieldState f) = value' (fieldState ?e)"
    and vd: "validator (fieldState f) =
              (if disableValidation example_ruled then None
               else Some (createValidatorFromConstraints example_ruled
                            (get_prop (get_prop (schema example_ruled) ''name'') ''constraints'')
                            Undefined ''name'' (table example_ruled)))"
    and e: "error (fieldState f) =
              (if nullish (error (fieldState ?e)) then Null
               else verdict (validator (fieldState f)) (value' (fieldState f)))"
    and c: "vcalls s' = vcalls example_ruled @
              (if nullish (error (fieldState ?e)) \<or> disableValidation example_ruled then []
               else [(''name'', value' (fieldState f))])"
    and g: "getField (fields' s') ''name'' = Some f"
    by blast
  have fid': "fieldId (fieldState f) = ''id-u1''" using fid by (simp only: ei)
  have v': "value' (fieldState f) = Str []" using v by (simp add: ev)
  have vd': "validator (fieldState f) = Some (by_rules Undefined Undefined ''name'' Undefined)"
    using vd by (simp add: pr)
  have e': "error (fieldState f) = Null"
    using e by (simp add: ee v' vd' verdict_def by_rules_def)
  have c': "vcalls s' = [(''name'', Str []), (''name'', Str [])]"
    using c by (simp add: ee v' pr)
  from example_ruled_reachable example_ruled_conforming h n r fid' v' vd' e' c' g
  show ?thesis by blast
qed

text \<open>
  Claim C5.  In a reachable state of a conforming form, for a registered field,
  \<^verbatim>\<open>setValue(value, skipCheck)\<close> changes nothing and returns nothing when \<open>skipCheck\<close> is
  false and \<open>value\<close> strictly equals the stored value.  Otherwise it runs the field's
  validator (if there is one) on \<open>value\<close>, stores the value, the validator's answer as the
  error and the clock's reading as \<^verbatim>\<open>lastUpdate\<close>, leaves every other field and the rest
  of the state alone, and returns \<open>true\<close> exactly when that error is absent.
\<close>

theorem setValue_spec:
  assumes re: "reachable s" and cf: "conforming s"
    and reg: "getField (fields' s) n = Some f"
  shows "(\<not> skip \<and> strict_eq (value' (fieldState f)) v \<longrightarrow>
            setValue s n v skip = Inr (None, s)) \<and>
         (skip \<or> \<not> strict_eq (value' (fieldState f)) v \<longrightarrow>
            (\<exists>s'. setValue s n v skip =
                    Inr (Some (nullish (verdict (validator (fieldState f)) v)), s') \<and>
                  getField (fields' s') n =
                    Some (f\<lparr>fieldState := (fieldState f)
                            \<lparr>value' := v, error := verdict (validator (fieldState f)) v,
                             lastUpdate := now s (ticks s)\<rparr>\<rparr>) \<and>
                  (\<forall>m. m \<noteq> n \<longrightarrow> getField (fields' s') m = getField (fields' s) m) \<and>
                  map name (fields' s') = map name (fields' s) \<and>
                  vcalls s' =
                    vcalls s @ (if validator (fieldState f) = None then [] else [(n, v)]) \<and>
                  s'\<lparr>fields' := fields' s, ticks := ticks s, vcalls := vcalls s\<rparr> = s))"
proof (intro conjI impI)
  assume "\<not> skip \<and> strict_eq (value' (fieldState f)) v"
  with reg show "setValue s n v skip = Inr (None, s)" by (simp add: setValue_skip)
next
  assume run: "skip \<or> \<not> strict_eq (value' (fieldState f)) v"
  have "errors_conform (fields' s)" using re cf by (simp add: reachable_conform)
  from errors_conform_getField [OF this reg]
  have "error_or_absent (verdict (validator (fieldState f)) v)" by simp
  then have t: "(\<not> truthy (verdict (validator (fieldState f)) v)) =
                nullish (verdict (validator (fieldState f)) v)"
    by (simp add: error_or_absent_truthy)
  show "\<exists>s'. setValue s n v skip =
               Inr (Some (nullish (verdict (validator (fieldState f)) v)), s') \<and>
             getField (fields' s') n =
               Some (f\<lparr>fieldState := (fieldState f)
                       \<lparr>value' := v, error := verdict (validator (fieldState f)) v,
                        lastUpdate := now s (ticks s)\<rparr>\<rparr>) \<and>
             (\<forall>m. m \<noteq> n \<longrightarrow> getField (fields' s') m = getField (fields' s) m) \<and>
             map name (fields' s') = map name (fields' s) \<and>
             vcalls s' =
               vcalls s @ (if validator (fieldState f) = None then [] else [(n, v)]) \<and>
             s'\<lparr>fields' := fields' s, ticks := ticks s, vcalls := vcalls s\<rparr> = s"
    by (simp add: setValue_run [OF reg run] getField_update_field map_name_update_field reg t)
qed

text \<open>
  In the scenario of the specification the field \<^verbatim>\<open>name\<close> holds \<^verbatim>\<open>""\<close>:
  \<^verbatim>\<open>setValue("")\<close> is skipped; \<^verbatim>\<open>setValue("Bob")\<close> stores the value with no error at
  time 1002 and returns \<open>true\<close>; \<^verbatim>\<open>setValue(null)\<close> stores the error \<^verbatim>\<open>"Required"\<close> and
  returns \<open>false\<close>.
\<close>

theorem setValue_spec_witness:
  "reachable example_two_steps \<and> conforming example_two_steps \<and>
   getField (fields' example_two_steps) ''name'' = Some (hd (fields' example_two_steps)) \<and>
   strict_eq (value' (fieldState (hd (fields' example_two_steps)))) (Str []) \<and>
   setValue example_two_steps ''name'' (Str []) False = Inr (None, example_two_steps) \<and>
   \<not> strict_eq (value' (fieldState (hd (fields' example_two_steps)))) (Str ''Bob'') \<and>
   (\<exists>s'. setValue example_two_steps ''name'' (Str ''Bob'') False = Inr (Some True, s') \<and>
         map_option (\<lambda>f. (value' (fieldState f), error (fieldState f), lastUpdate (fieldState f)))
           (getField (fields' s') ''name'') = Some (Str ''Bob'', Null, 1002) \<and>
         getField (fields' s') ''age'' = getField (fields' example_two_steps) ''age'' \<and>
         vcalls s' = [(''name'', Str ''Bob'')]) \<and>
   \<not> strict_eq (value' (fieldState (hd (fields' example_two_steps)))) Null \<and>
   (\<exists>s'. setValue example_two_steps ''name'' Null False = Inr (Some False, s') \<and>
         map_option (\<lambda>f. (value' (fieldState f), error (fieldState f), lastUpdate (fieldState f)))
           (getField (fields' s') ''name'') = Some (Null, Str ''Required'', 1002))"
proof -
  let ?f = "hd (fields' example_two_steps)"
  note re = example_two_steps_reachable
  note cf = example_two_steps_conforming
  have h: "getField (fields' example_two_steps) ''name'' = Some ?f"
    by (simp add: example_defs form_defs js_defs)
  have eq: "strict_eq (value' (fieldState ?f)) (Str [])"
    by (simp add: example_defs form_defs js_defs)
  have ne: "\<not> strict_eq (value' (fieldState ?f)) (Str ''Bob'')"
    by (simp add: example_defs form_defs js_defs)
  have nn: "\<not> strict_eq (value' (fieldState ?f)) Null"
    by (simp add: example_defs form_defs js_defs)
  have vd: "validator (fieldState ?f) = Some (required Undefined Undefined ''name'' Undefined)"
    by (simp add: example_defs form_defs js_defs)
  have t: "now example_two_steps (ticks example_two_steps) = 1002"
    by (simp add: example_defs form_defs js_defs)
  have c: "vcalls example_two_steps = []"
    by (simp add: example_defs form_defs js_defs)
  from setValue_spec [OF re cf h, of False "Str []"] eq
  have skip: "setValue example_two_steps ''name'' (Str []) False = Inr (None, example_two_steps)"
    by simp
  from setValue_spec [OF re cf h, of False "Str ''Bob''"] ne
  obtain s' where
    r: "setValue example_two_steps ''name'' (Str ''Bob'') False =
          Inr (Some (nullish (verdict (validator (fieldState ?f)) (Str ''Bob''))), s')"
    and g: "getField (fields' s') ''name'' =
          Some (?f\<lparr>fieldState := (fieldState ?f)
                  \<lparr>value' := Str ''Bob'',
                   error := verdict (validator (fieldState ?f)) (Str ''Bob''),
                   lastUpdate := now example_two_steps (ticks example_two_steps)\<rparr>\<rparr>)"
    and o: "\<forall>m. m \<noteq> ''name'' \<longrightarrow>
              getField (fields' s') m = getField (fields' example_two_steps) m"
    and vc: "vcalls s' = vcalls example_two_steps @
              (if validator (fieldState ?f) = None then [] else [(''name'', Str ''Bob'')])"
    by auto
  have r': "setValue example_two_steps ''name'' (Str ''Bob'') False = Inr (Some True, s')"
    using r by (simp add: vd verdict_def required_def)
  have g': "map_option (\<lambda>f. (value' (fieldState f), error (fieldState f), lastUpdate (fieldState f)))
           (getField (fields' s') ''name'') = Some (Str ''Bob'', Null, 1002)"
    by (simp add: g vd t verdict_def required_def)
  have o': "getField (fields' s') ''age'' = getField (fields' example_two_steps) ''age''"
    using o by simp
  have vc': "vcalls s' = [(''name'', Str ''Bob'')]"
    using vc by (simp add: vd c)
  from setValue_spec [OF re cf h, of False Null] nn
  obtain s2 where
    r2: "setValue example_two_steps ''name'' Null False =
          Inr (Some (nullish (verdict (validator (fieldState ?f)) Null)), s2)"
    and g2: "getField (fields' s2) ''name'' =
          Some (?f\<lparr>fieldState := (fieldState ?f)
                  \<lparr>value' := Null, error := verdict (validator (fieldState ?f)) Null,
                   lastUpdate := now example_two_steps (ticks example_two_steps)\<rparr>\<rparr>)"
    by auto
  have r2': "setValue example_two_steps ''name'' Null False = Inr (Some False, s2)"
    using r2 by (simp add: vd verdict_def required_def)
  have g2': "map_option (\<lambda>f. (value' (fieldState f), error (fieldState f), lastUpdate (fieldState f)))
           (getField (fields' s2) ''name'') = Some (Null, Str ''Required'', 1002)"
    by (simp add: g2 vd t verdict_def required_def)
  from re cf h eq skip ne r' g' o' vc' nn r2' g2' show ?thesis by blast
qed

text \<open>
  Claim C6.  \<^verbatim>\<open>changeStep\<close> changes nothing but \<^verbatim>\<open>currentStep\<close>, which is a JavaScript
  number.  \<^verbatim>\<open>next\<close> sets it to the double nearest to \<open>currentStep + 1\<close>, which is
  \<open>currentStep + 1\<close> for every integer step from \<open>-2^53\<close> up to \<open>2^53 - 1\<close>;
  \<^verbatim>\<open>prev\<close> sets it to \<open>Math.max(1, currentStep - 1)\<close>, so step 1 stays at 1;
  \<^verbatim>\<open>first\<close> sets it to 1; \<^verbatim>\<open>specific\<close> sets it to \<open>number\<close> when that is a number other
  than \<open>0\<close> and \<open>NaN\<close> (a fraction or an infinity included), whatever the current step, and
  does nothing when \<open>number\<close> is \<open>0\<close>, \<open>NaN\<close> or absent; any other type does nothing.
\<close>

theorem changeStep_transitions:
  "currentStep (changeStep s ''next'' n) = dadd (currentStep s) (Fin 1) \<and>
   (currentStep s = Fin (of_int k) \<and> - (2 ^ 53) \<le> k \<and> k < 2 ^ 53 \<longrightarrow>
      currentStep (changeStep s ''next'' n) = Fin (of_int (k + 1))) \<and>
   currentStep (changeStep s ''prev'' n) = Math_max (Fin 1) (dsub (currentStep s) (Fin 1)) \<and>
   (currentStep s = Fin (of_int k) \<and> - (2 ^ 53) < k \<and> k \<le> 2 ^ 53 \<longrightarrow>
      currentStep (changeStep s ''prev'' n) = Fin (of_int (max 1 (k - 1)))) \<and>
   (currentStep s = Fin 1 \<longrightarrow> currentStep (changeStep s ''prev'' n) = Fin 1) \<and>
   currentStep (changeStep s ''first'' n) = Fin 1 \<and>
   (x \<noteq> Fin 0 \<and> x \<noteq> NaN \<longrightarrow> currentStep (changeStep s ''specific'' (Some x)) = x) \<and>
   changeStep s ''specific'' (Some (Fin 0)) = s \<and>
   changeStep s ''specific'' (Some NaN) = s \<and>
   changeStep s ''specific'' None = s \<and>
   (t \<notin> {''next'', ''prev'', ''first'', ''specific''} \<longrightarrow> changeStep s t n = s) \<and>
   changeStep s t n = s\<lparr>currentStep := currentStep (changeStep s t n)\<rparr>"
proof -
  have nx: "currentStep s = Fin (of_int k) \<and> - (2 ^ 53) \<le> k \<and> k < 2 ^ 53 \<longrightarrow>
      currentStep (changeStep s ''next'' n) = Fin (of_int (k + 1))"
  proof
    assume a: "currentStep s = Fin (of_int k) \<and> - (2 ^ 53) \<le> k \<and> k < 2 ^ 53"
    then have "\<bar>k + 1\<bar> \<le> 2 ^ 53" by (simp add: abs_le_iff)
    from dadd_int [OF this] a
    show "currentStep (changeStep s ''next'' n) = Fin (of_int (k + 1))"
      by (simp add: changeStep_def)
  qed
  have pv: "currentStep s = Fin (of_int k) \<and> - (2 ^ 53) < k \<and> k \<le> 2 ^ 53 \<longrightarrow>
      currentStep (changeStep s ''prev'' n) = Fin (of_int (max 1 (k - 1)))"
  proof
    assume a: "currentStep s = Fin (of_int k) \<and> - (2 ^ 53) < k \<and> k \<le> 2 ^ 53"
    then have "\<bar>k - 1\<bar> \<le> 2 ^ 53" by (simp add: abs_le_iff)
    from dsub_int [OF this] a
    have "currentStep (changeStep s ''prev'' n) = Math_max (Fin 1) (Fin (of_int (k - 1)))"
      by (simp add: changeStep_def)
    also have "\<dots> = Fin (of_int (max 1 (k - 1)))"
      by (simp add: max_def)
    finally show "currentStep (changeStep s ''prev'' n) = Fin (of_int (max 1 (k - 1)))" .
  qed
  have p1: "currentStep s = Fin 1 \<longrightarrow> currentStep (changeStep s ''prev'' n) = Fin 1"
  proof
    assume a: "currentStep s = Fin 1"
    have "dsub (Fin (of_int 1)) (Fin (of_int 1)) = Fin (of_int (1 - 1))"
      by (rule dsub_int) simp
    then have "dsub (Fin 1) (Fin 1) = Fin 0" by simp
    with a show "currentStep (changeStep s ''prev'' n) = Fin 1"
      by (simp add: changeStep_def)
  qed
  have sp: "x \<noteq> Fin 0 \<and> x \<noteq> NaN \<longrightarrow> currentStep (changeStep s ''specific'' (Some x)) = x"
    by (cases x) (simp_all add: changeStep_def num_val_def isNaN_def)
  have fr: "changeStep s t n = s\<lparr>currentStep := currentStep (changeStep s t n)\<rparr>"
    by (simp add: changeStep_def split: option.splits)
  show ?thesis
    using nx pv p1 sp fr
    by (simp add: changeStep_def num_val_def isNaN_def)
qed

text \<open>
  From step 1, \<^verbatim>\<open>next\<close> leads to 2 and again to 3, \<^verbatim>\<open>prev\<close> leads back to 2, and at
  step 1 \<^verbatim>\<open>prev\<close> stays at 1; \<^verbatim>\<open>specific\<close> with 4 leads to 4 and with 5/2 to 5/2.
\<close>

theorem changeStep_transitions_witness:
  "currentStep example_form = Fin (of_int 1) \<and> - (2 ^ 53) \<le> (1 :: int) \<and> (1 :: int) < 2 ^ 53 \<and>
   currentStep (changeStep example_form ''next'' None) = Fin 2 \<and>
   currentStep (changeStep example_form ''prev'' None) = Fin 1 \<and>
   currentStep (changeStep (changeStep example_form ''next'' None) ''next'' None) = Fin 3 \<and>
   currentStep (changeStep (changeStep example_form ''next'' None) ''prev'' None) = Fin 1 \<and>
   currentStep (changeStep (changeStep (changeStep example_form ''next'' None) ''next'' None)
                  ''prev'' None) = Fin 2 \<and>
   Fin 4 \<noteq> Fin 0 \<and> Fin 4 \<noteq> NaN \<and>
   currentStep (changeStep example_form ''specific'' (Some (Fin 4))) = Fin 4 \<and>
   Fin (5 / 2) \<noteq> Fin 0 \<and> Fin (5 / 2) \<noteq> NaN \<and>
   currentStep (changeStep example_form ''specific'' (Some (Fin (5 / 2)))) = Fin (5 / 2) \<and>
   ''jump'' \<notin> {''next'', ''prev'', ''first'', ''specific''} \<and>
   changeStep example_form ''jump'' (Some (Fin 4)) = example_form"
proof -
  let ?s2 = "changeStep example_form ''next'' None"
  let ?s3 = "changeStep ?s2 ''next'' None"
  have c1: "currentStep example_form = Fin (of_int 1)"
    by (simp add: example_form_def mount_def)
  have b1: "- (2 ^ 53) \<le> (1 :: int) \<and> (1 :: int) < 2 ^ 53" by simp
  have x4: "Fin 4 \<noteq> Fin 0 \<and> Fin 4 \<noteq> NaN" by simp
  have x5: "Fin (5 / 2) \<noteq> Fin 0 \<and> Fin (5 / 2) \<noteq> NaN" by simp
  have j: "''jump'' \<notin> {''next'', ''prev'', ''first'', ''specific''}" by simp
  note T1 = changeStep_transitions [of example_form None 1 "Fin 4" "''jump''"]
  from T1 c1 b1 have "currentStep ?s2 = Fin (of_int (1 + 1))" by blast
  then have n1: "currentStep ?s2 = Fin 2" by simp
  have c1': "currentStep example_form = Fin 1" using c1 by simp
  from T1 c1' have p1: "currentStep (changeStep example_form ''prev'' None) = Fin 1"
    by blast
  from T1 x4 have s4: "currentStep (changeStep example_form ''specific'' (Some (Fin 4))) = Fin 4"
    by blast
  from changeStep_transitions [of example_form None 1 "Fin (5 / 2)" "''jump''"] x5
  have s5: "currentStep (changeStep example_form ''specific'' (Some (Fin (5 / 2)))) = Fin (5 / 2)"
    by blast
  from changeStep_transitions [of example_form "Some (Fin 4)" 1 "Fin 4" "''jump''"] j
  have u: "changeStep example_form ''jump'' (Some (Fin 4)) = example_form"
    by blast
  have c2: "currentStep ?s2 = Fin (of_int 2)" using n1 by simp
  have b2: "- (2 ^ 53) < (2 :: int) \<and> (2 :: int) \<le> 2 ^ 53 \<and>
            - (2 ^ 53) \<le> (2 :: int) \<and> (2 :: int) < 2 ^ 53" by simp
  note T2 = changeStep_transitions [of ?s2 None 2 "Fin 4" "''jump''"]
  from T2 c2 b2 have "currentStep ?s3 = Fin (of_int (2 + 1))" by blast
  then have n2: "currentStep ?s3 = Fin 3" by simp
  from T2 c2 b2 have "currentStep (changeStep ?s2 ''prev'' None) = Fin (of_int (max 1 (2 - 1)))"
    by blast
  then have p2: "currentStep (changeStep ?s2 ''prev'' None) = Fin 1" by simp
  have c3: "currentStep ?s3 = Fin (of_int 3)" using n2 by simp
  have b3: "- (2 ^ 53) < (3 :: int) \<and> (3 :: int) \<le> 2 ^ 53" by simp
  from changeStep_transitions [of ?s3 None 3 "Fin 4" "''jump''"] c3 b3
  have "currentStep (changeStep ?s3 ''prev'' None) = Fin (of_int (max 1 (3 - 1)))"
    by blast
  then have p3: "currentStep (changeStep ?s3 ''prev'' None) = Fin 2" by simp
  from c1 b1 n1 p1 n2 p2 p3 x4 s4 x5 s5 j u show ?thesis by blast
qed

text \<open>
  Two inputs on which the transitions are not the ones of the claim as it was written:
  at step 3, \<^verbatim>\<open>specific\<close> with the number \<open>0\<close> leaves the step at 3; and at step \<open>2^53\<close>,
  \<^verbatim>\<open>next\<close> leaves the step at \<open>2^53\<close>.
\<close>

theorem changeStep_counterexample:
  "currentStep (changeStep (changeStep example_form ''specific'' (Some (Fin 3)))
                  ''specific'' (Some (Fin 0))) = Fin 3 \<and>
   currentStep (changeStep (changeStep example_form ''specific'' (Some (Fin 9007199254740992)))
                  ''next'' None) = Fin 9007199254740992"
proof -
  have "dadd (Fin 9007199254740992) (Fin 1) = Fin 9007199254740992"
    using round_double_2_53_1 by simp
  then show ?thesis
    by (simp add: changeStep_def num_val_def isNaN_def example_form_def mount_def)
qed

text \<open>
  Claim C7.  \<^verbatim>\<open>clearValue\<close> reads \<^verbatim>\<open>initialValues[field]\<close> without a guard, while
  \<^verbatim>\<open>deriveFormValue\<close> reads \<^verbatim>\<open>initialValues || {}\<close> and \<^verbatim>\<open>registerField\<close> reads it
  through \<^verbatim>\<open>deepGet\<close>.  In \<open>example_no_initialValues\<close> the form is mounted without the
  \<^verbatim>\<open>initialValues\<close> prop and the field \<^verbatim>\<open>a\<close> is registered with the default \<^verbatim>\<open>"d"\<close>:
  the state is reachable, the form value is computed, but \<^verbatim>\<open>clearValue\<close> on the registered
  field throws a \<open>TypeError\<close> and so sets neither value, error nor \<^verbatim>\<open>lastUpdate\<close>, and
  \<^verbatim>\<open>clear\<close> throws with it.  In \<open>example_initial\<close>, where \<^verbatim>\<open>initialValues\<close> is
  \<^verbatim>\<open>{a: "init"}\<close> and the field holds \<^verbatim>\<open>""\<close> with the error \<^verbatim>\<open>"Required"\<close>, the same
  call does what the claim says: the value becomes \<^verbatim>\<open>"init"\<close>, the error \<open>null\<close>,
  \<^verbatim>\<open>lastUpdate\<close> the clock's reading, and no validator runs.
\<close>

theorem clearValue_throws_without_initialValues:
  "reachable example_no_initialValues \<and>
   map_option (\<lambda>f. (value' (fieldState f), defaultValue (fieldState f)))
     (getField (fields' example_no_initialValues) ''a'') = Some (Str ''d'', Str ''d'') \<and>
   formValue v8_sort example_no_initialValues = Inr (Obj 0 [(''a'', Str ''d'')]) \<and>
   clearValue example_no_initialValues ''a'' = Inl TypeError \<and>
   clear example_no_initialValues = Inl TypeError \<and>
   map_option (\<lambda>f. (value' (fieldState f), error (fieldState f), lastUpdate (fieldState f)))
     (getField (fields' example_initial) ''a'') = Some (Str [], Str ''Required'', 1001) \<and>
   map_option (\<lambda>f. (value' (fieldState f), error (fieldState f), lastUpdate (fieldState f)))
     (getField (fields' (projr (clearValue example_initial ''a''))) ''a'') =
     Some (Str ''init'', Null, 1002) \<and>
   vcalls (projr (clearValue example_initial ''a'')) = vcalls example_initial"
proof -
  have a: "map_option (\<lambda>f. (value' (fieldState f), defaultValue (fieldState f)))
     (getField (fields' example_no_initialValues) ''a'') = Some (Str ''d'', Str ''d'')"
    by (simp add: example_defs form_defs js_defs)
  have b: "formValue v8_sort example_no_initialValues = Inr (Obj 0 [(''a'', Str ''d'')])"
    by (simp add: formValue_def deriveFormValue_def v8_sort_by_lastUpdate example_defs form_defs
          js_defs)
  have c: "clearValue example_no_initialValues ''a'' = Inl TypeError"
    by (simp add: example_defs form_defs js_defs)
  have d: "clear example_no_initialValues = Inl TypeError"
    by (simp add: example_defs form_defs js_defs)
  have e: "map_option (\<lambda>f. (value' (fieldState f), error (fieldState f), lastUpdate (fieldState f)))
     (getField (fields' example_initial) ''a'') = Some (Str [], Str ''Required'', 1001)"
    by (simp add: example_defs form_defs js_defs)
  have f: "map_option (\<lambda>f. (value' (fieldState f), error (fieldState f), lastUpdate (fieldState f)))
     (getField (fields' (projr (clearValue example_initial ''a''))) ''a'') =
     Some (Str ''init'', Null, 1002)"
    by (simp add: example_defs form_defs js_defs)
  have g: "vcalls (projr (clearValue example_initial ''a'')) = vcalls example_initial"
    by (simp add: example_defs form_defs js_defs)
  from example_no_initialValues_reachable a b c d e f g show ?thesis by simp
qed

text \<open>
  Claim C8.  In a reachable state of a conforming form, \<^verbatim>\<open>validate(onlyCurrentStep)\<close>
  validates every field when \<open>onlyCurrentStep\<close> is false, and the fields whose step equals
  \<^verbatim>\<open>currentStep\<close> when it is true.  It returns \<open>true\<close> exactly when the validator of every
  validated field has no error for the field's value, which is exactly when no validated
  field holds an error afterwards.  Every validated field keeps its value and gets the
  validator's answer as its error; every other field is left exactly as it was (value, error
  and \<^verbatim>\<open>lastUpdate\<close> included), and the validators invoked are those of the validated fields,
  each once on the field's value, in registry order.
\<close>

theorem validate_spec:
  assumes re: "reachable s" and cf: "conforming s"
    and fs: "fs = (if only then filter (\<lambda>f. Fin (of_int (step f)) = currentStep s) (fields' s)
                   else fields' s)"
  shows "\<exists>s'. validate s only = Inr (list_all passes fs, s') \<and>
           (\<forall>f \<in> set fs. \<exists>t. getField (fields' s') (name f) = Some (revalidated t f)) \<and>
           (\<forall>f \<in> set (fields' s). f \<notin> set fs \<longrightarrow> getField (fields' s') (name f) = Some f) \<and>
           list_all passes fs =
             (\<forall>f \<in> set fs. \<forall>g. getField (fields' s') (name f) = Some g \<longrightarrow>
                                nullish (error (fieldState g))) \<and>
           map name (fields' s') = map name (fields' s) \<and>
           vcalls s' = vcalls s @ validator_calls fs \<and>
           s'\<lparr>fields' := fields' s, ticks := ticks s, vcalls := vcalls s\<rparr> = s"
proof -
  have vf: "validationFields s only = fs"
    unfolding validationFields_def fs
    by (cases "currentStep s") (auto intro: filter_cong)
  have d: "distinct (map name (fields' s))" using re by (rule reachable_distinct)
  have sub: "set fs \<subseteq> set (fields' s)" by (auto simp: fs)
  have dv: "distinct (map name fs)"
    using d by (simp add: fs distinct_map_filter)
  have ec: "errors_conform (fields' s)" using re cf by (simp add: reachable_conform)
  have vp: "validates f = passes f" if "f \<in> set fs" for f
  proof -
    from that sub have "f \<in> set (fields' s)" by auto
    with ec have "error_or_absent (verdict (validator (fieldState f)) (value' (fieldState f)))"
      by (simp add: errors_conform_def)
    then show ?thesis by (simp add: validates_def passes_def error_or_absent_truthy)
  qed
  then have la: "list_all validates fs = list_all passes fs"
    by (simp add: list_all_iff)
  from validate_each_spec [OF dv sub d, of True]
  obtain s' where
    run: "validate_each s (map name fs) True = Inr (True \<and> list_all validates fs, s')"
    and fr: "\<forall>m. m \<notin> set (map name fs) \<longrightarrow> getField (fields' s') m = getField (fields' s) m"
    and upd: "\<forall>f \<in> set fs. \<exists>t. getField (fields' s') (name f) = Some (revalidated t f)"
    and vc: "vcalls s' = vcalls s @ validator_calls fs"
    and rest: "s'\<lparr>fields' := fields' s, ticks := ticks s, vcalls := vcalls s\<rparr> = s"
    by blast
  have r: "validate s only = Inr (list_all passes fs, s')"
    using run by (simp add: validate_def vf la)
  have names: "map name (fields' s') = map name (fields' s)"
    using run by (rule validate_each_names)
  have frame: "getField (fields' s') (name f) = Some f"
    if f: "f \<in> set (fields' s)" and o: "f \<notin> set fs" for f
  proof -
    have "name f \<notin> set (map name fs)"
    proof
      assume "name f \<in> set (map name fs)"
      then obtain g where g: "g \<in> set fs" and ng: "name g = name f" by auto
      from g sub have gs: "g \<in> set (fields' s)" by auto
      from d f gs ng have "g = f" by (metis distinct_map inj_onD)
      with g o show False by simp
    qed
    with fr have "getField (fields' s') (name f) = getField (fields' s) (name f)" by blast
    also have "\<dots> = Some f" using d f by (rule getField_distinct)
    finally show ?thesis .
  qed
  have after: "list_all passes fs =
             (\<forall>f \<in> set fs. \<forall>g. getField (fields' s') (name f) = Some g \<longrightarrow>
                                nullish (error (fieldState g)))"
  proof -
    have "passes f = (\<forall>g. getField (fields' s') (name f) = Some g \<longrightarrow>
                          nullish (error (fieldState g)))" if "f \<in> set fs" for f
    proof -
      from upd that obtain t where "getField (fields' s') (name f) = Some (revalidated t f)"
        by blast
      then show ?thesis by (simp add: passes_def revalidated_def)
    qed
    then show ?thesis by (simp add: list_all_iff)
  qed
  from r upd frame after names vc rest show ?thesis by blast
qed

text \<open>
  The scenario of the specification at step 1, where \<^verbatim>\<open>name\<close> (step 1) and \<^verbatim>\<open>age\<close>
  (step 2) are both empty.  \<^verbatim>\<open>validate(true)\<close> returns \<open>false\<close>, gives \<^verbatim>\<open>name\<close> the error
  \<^verbatim>\<open>"Required"\<close>, leaves \<^verbatim>\<open>age\<close> as it was and invokes the validator of \<^verbatim>\<open>name\<close> only.
  \<^verbatim>\<open>validate(false)\<close> returns \<open>false\<close>, gives both fields the error and invokes both
  validators.  After \<^verbatim>\<open>name\<close> is set to \<^verbatim>\<open>"Bob"\<close>, \<^verbatim>\<open>validate(true)\<close> returns \<open>true\<close>.
\<close>

theorem validate_spec_witness:
  "reachable example_two_steps \<and> conforming example_two_steps \<and>
   [hd (fields' example_two_steps)] =
     (if True then filter (\<lambda>f. Fin (of_int (step f)) = currentStep example_two_steps)
                     (fields' example_two_steps)
      else fields' example_two_steps) \<and>
   (\<exists>s'. validate example_two_steps True = Inr (False, s') \<and>
         map_option (\<lambda>g. error (fieldState g)) (getField (fields' s') ''name'') =
           Some (Str ''Required'') \<and>
         getField (fields' s') ''age'' = Some (last (fields' example_two_steps)) \<and>
         vcalls s' = [(''name'', Str [])]) \<and>
   fields' example_two_steps =
     (if False then filter (\<lambda>f. Fin (of_int (step f)) = currentStep example_two_steps)
                      (fields' example_two_steps)
      else fields' example_two_steps) \<and>
   (\<exists>s'. validate example_two_steps False = Inr (False, s') \<and>
         map_option (\<lambda>g. error (fieldState g)) (getField (fields' s') ''name'') =
           Some (Str ''Required'') \<and>
         map_option (\<lambda>g. error (fieldState g)) (getField (fields' s') ''age'') =
           Some (Str ''Required'') \<and>
         vcalls s' = [(''name'', Str []), (''age'', Null)]) \<and>
   reachable (snd (projr (setValue example_two_steps ''name'' (Str ''Bob'') False))) \<and>
   conforming (snd (projr (setValue example_two_steps ''name'' (Str ''Bob'') False))) \<and>
   (\<exists>s'. validate (snd (projr (setValue example_two_steps ''name'' (Str ''Bob'') False))) True =
           Inr (True, s'))"
proof -
  let ?s = example_two_steps
  let ?n = "hd (fields' ?s)"
  let ?a = "last (fields' ?s)"
  note re = example_two_steps_reachable
  note cf = example_two_steps_conforming
  have fl: "fields' ?s = [?n, ?a]"
    by (simp add: example_defs form_defs js_defs)
  have nn: "name ?n = ''name''" and na: "name ?a = ''age''"
    by (simp_all add: example_defs form_defs js_defs)
  have f1: "[?n] = (if True then filter (\<lambda>f. Fin (of_int (step f)) = currentStep ?s) (fields' ?s)
                    else fields' ?s)"
    by (simp add: example_defs form_defs js_defs)
  have f0: "fields' ?s = (if False then filter (\<lambda>f. Fin (of_int (step f)) = currentStep ?s)
                                         (fields' ?s)
                          else fields' ?s)"
    by simp
  have pn: "passes ?n = False" and pa: "passes ?a = False"
    by (simp_all add: passes_def example_defs form_defs js_defs)
  have en: "error (fieldState (revalidated t ?n)) = Str ''Required''" for t
    by (simp add: revalidated_def example_defs form_defs js_defs)
  have ea: "error (fieldState (revalidated t ?a)) = Str ''Required''" for t
    by (simp add: revalidated_def example_defs form_defs js_defs)
  have an: "?a \<notin> set [?n]"
    by (simp add: example_defs form_defs js_defs)
  have c0: "vcalls ?s = []"
    by (simp add: example_defs form_defs js_defs)
  have c1: "validator_calls [?n] = [(''name'', Str [])]"
    by (simp add: validator_calls_def example_defs form_defs js_defs)
  have c2: "validator_calls (fields' ?s) = [(''name'', Str []), (''age'', Null)]"
    by (simp add: validator_calls_def example_defs form_defs js_defs)
  from validate_spec [OF re cf f1]
  obtain s1 where
    r1: "validate ?s True = Inr (list_all passes [?n], s1)"
    and u1: "\<forall>f \<in> set [?n]. \<exists>t. getField (fields' s1) (name f) = Some (revalidated t f)"
    and o1: "\<forall>f \<in> set (fields' ?s). f \<notin> set [?n] \<longrightarrow> getField (fields' s1) (name f) = Some f"
    and v1: "vcalls s1 = vcalls ?s @ validator_calls [?n]"
    by blast
  have r1': "validate ?s True = Inr (False, s1)" using r1 by (simp add: pn)
  from u1 obtain t1 where "getField (fields' s1) (name ?n) = Some (revalidated t1 ?n)" by auto
  then have e1: "map_option (\<lambda>g. error (fieldState g)) (getField (fields' s1) ''name'') =
                   Some (Str ''Required'')"
    by (simp add: nn en)
  have "?a \<in> set (fields' ?s)" by (subst (2) fl) simp
  with o1 an have "getField (fields' s1) (name ?a) = Some ?a" by blast
  then have a1: "getField (fields' s1) ''age'' = Some ?a" by (simp add: na)
  have v1': "vcalls s1 = [(''name'', Str [])]" using v1 by (simp add: c0 c1)
  have one: "\<exists>s'. validate ?s True = Inr (False, s') \<and>
         map_option (\<lambda>g. error (fieldState g)) (getField (fields' s') ''name'') =
           Some (Str ''Required'') \<and>
         getField (fields' s') ''age'' = Some ?a \<and>
         vcalls s' = [(''name'', Str [])]"
    using r1' e1 a1 v1' by blast
  from validate_spec [OF re cf f0]
  obtain s2 where
    r2: "validate ?s False = Inr (list_all passes (fields' ?s), s2)"
    and u2: "\<forall>f \<in> set (fields' ?s). \<exists>t. getField (fields' s2) (name f) = Some (revalidated t f)"
    and v2: "vcalls s2 = vcalls ?s @ validator_calls (fields' ?s)"
    by blast
  have "list_all passes (fields' ?s) = False"
    by (subst fl) (simp add: pn)
  then have r2': "validate ?s False = Inr (False, s2)" using r2 by simp
  have mn: "?n \<in> set (fields' ?s)" and ma: "?a \<in> set (fields' ?s)"
    by (subst (2) fl, simp)+
  from u2 mn obtain t2 where "getField (fields' s2) (name ?n) = Some (revalidated t2 ?n)"
    by blast
  then have e2: "map_option (\<lambda>g. error (fieldState g)) (getField (fields' s2) ''name'') =
                   Some (Str ''Required'')"
    by (simp add: nn en)
  from u2 ma obtain t3 where "getField (fields' s2) (name ?a) = Some (revalidated t3 ?a)"
    by blast
  then have e3: "map_option (\<lambda>g. error (fieldState g)) (getField (fields' s2) ''age'') =
                   Some (Str ''Required'')"
    by (simp add: na ea)
  have v2': "vcalls s2 = [(''name'', Str []), (''age'', Null)]"
    using v2 by (simp add: c0 c2)
  have two: "\<exists>s'. validate ?s False = Inr (False, s') \<and>
         map_option (\<lambda>g. error (fieldState g)) (getField (fields' s') ''name'') =
           Some (Str ''Required'') \<and>
         map_option (\<lambda>g. error (fieldState g)) (getField (fields' s') ''age'') =
           Some (Str ''Required'') \<and>
         vcalls s' = [(''name'', Str []), (''age'', Null)]"
    using r2' e2 e3 v2' by blast
  let ?b = "snd (projr (setValue ?s ''name'' (Str ''Bob'') False))"
  have sb: "setValue ?s ''name'' (Str ''Bob'') False =
              Inr (fst (projr (setValue ?s ''name'' (Str ''Bob'') False)), ?b)"
    by (simp add: example_defs form_defs js_defs)
  have rb: "reachable ?b" using re sb by (rule r_setValue)
  have "createValidatorFromConstraints ?b = required"
    by (simp add: example_defs form_defs js_defs)
  then have cb: "conforming ?b" by (simp add: conforming_def required_conforms)
  have fb: "[hd (fields' ?b)] =
              (if True then filter (\<lambda>f. Fin (of_int (step f)) = currentStep ?b) (fields' ?b)
               else fields' ?b)"
    by (simp add: example_defs form_defs js_defs)
  have pb: "passes (hd (fields' ?b))"
    by (simp add: passes_def example_defs form_defs js_defs)
  from validate_spec [OF rb cb fb]
  obtain s3 where "validate ?b True = Inr (list_all passes [hd (fields' ?b)], s3)"
    by blast
  then have three: "\<exists>s'. validate ?b True = Inr (True, s')" by (simp add: pb)
  from re cf f1 one f0 two rb cb three show ?thesis by blast
qed

text \<open>
  Claim C9.  In a reachable state, for every field of type \<^verbatim>\<open>attachment\<close> the enrichments
  bind the key \<^verbatim>\<open><name>_first\<close> to \<open>first_url\<close> of the field's value, and they have no
  other key, so a field of another type contributes no entry.  \<open>first_url\<close> is the
  \<^verbatim>\<open>url\<close> of element 0 when the value is an array whose element 0 is present, and \<open>null\<close>
  when the value is an empty array, an array whose element 0 is absent, \<open>null\<close> or
  \<open>undefined\<close>.
\<close>

theorem enrichments_spec:
  assumes "reachable s"
  shows "(\<forall>f \<in> set (fields' s). type' f = ''attachment'' \<longrightarrow>
            map_of (deriveBindingEnrichments (fields' s)) (name f @ ''_first'') =
              Some (first_url (value' (fieldState f)))) \<and>
         (\<forall>k. k \<in> set (map fst (deriveBindingEnrichments (fields' s))) \<longleftrightarrow>
              (\<exists>f \<in> set (fields' s). type' f = ''attachment'' \<and> k = name f @ ''_first'')) \<and>
         (\<not> nullish x \<longrightarrow> first_url (Arr r (x # xs)) = get_prop x ''url'') \<and>
         first_url (Arr r (Obj r' [(''url'', u)] # xs)) = u \<and>
         (nullish x \<longrightarrow> first_url (Arr r (x # xs)) = Null) \<and>
         first_url (Arr r []) = Null \<and> first_url Null = Null \<and> first_url Undefined = Null"
proof -
  have d: "distinct (map name (fields' s))" using assms by (rule reachable_distinct)
  have a: "\<forall>f \<in> set (fields' s). type' f = ''attachment'' \<longrightarrow>
            map_of (deriveBindingEnrichments (fields' s)) (name f @ ''_first'') =
              Some (first_url (value' (fieldState f)))"
    using d by (simp add: enrichments_lookup)
  have b: "\<forall>k. k \<in> set (map fst (deriveBindingEnrichments (fields' s))) \<longleftrightarrow>
              (\<exists>f \<in> set (fields' s). type' f = ''attachment'' \<and> k = name f @ ''_first'')"
    unfolding enrichments_keys by auto
  have c: "(\<not> nullish x \<longrightarrow> first_url (Arr r (x # xs)) = get_prop x ''url'') \<and>
         first_url (Arr r (Obj r' [(''url'', u)] # xs)) = u \<and>
         (nullish x \<longrightarrow> first_url (Arr r (x # xs)) = Null) \<and>
         first_url (Arr r []) = Null \<and> first_url Null = Null \<and> first_url Undefined = Null"
    by (simp add: first_url_def elem_at_def array_index_def digit_of_def obj_get_def)
  from a b c show ?thesis by blast
qed

text \<open>
  In \<open>example_attachments\<close> the value \<^verbatim>\<open>[{url: "a"}, {url: "b"}]\<close> of \<^verbatim>\<open>files\<close> gives
  \<^verbatim>\<open>files_first = "a"\<close>, the empty value of \<^verbatim>\<open>none\<close> gives \<^verbatim>\<open>none_first = null\<close>, and
  the text field \<^verbatim>\<open>title\<close> gives no key.
\<close>

theorem enrichments_spec_witness:
  "reachable example_attachments \<and>
   hd (fields' example_attachments) \<in> set (fields' example_attachments) \<and>
   type' (hd (fields' example_attachments)) = ''attachment'' \<and>
   name (hd (fields' example_attachments)) = ''files'' \<and>
   value' (fieldState (hd (fields' example_attachments))) =
     Arr 2 [Obj 3 [(''url'', Str ''a'')], Obj 4 [(''url'', Str ''b'')]] \<and>
   map_of (deriveBindingEnrichments (fields' example_attachments)) ''files_first'' =
     Some (Str ''a'') \<and>
   map_of (deriveBindingEnrichments (fields' example_attachments)) ''none_first'' = Some Null \<and>
   ''title_first'' \<notin> set (map fst (deriveBindingEnrichments (fields' example_attachments)))"
proof -
  let ?fs = "fields' example_attachments"
  have re: "reachable example_attachments"
    unfolding example_attachments_def example_form_def
    by (rule r_registerField, rule r_registerField, rule r_registerField, rule r_mount)
  have m: "hd ?fs \<in> set ?fs" by (simp add: example_defs form_defs js_defs)
  have ty: "type' (hd ?fs) = ''attachment''" by (simp add: example_defs form_defs js_defs)
  have nm: "name (hd ?fs) = ''files''" by (simp add: example_defs form_defs js_defs)
  have v: "value' (fieldState (hd ?fs)) =
             Arr 2 [Obj 3 [(''url'', Str ''a'')], Obj 4 [(''url'', Str ''b'')]]"
    by (simp add: example_defs form_defs js_defs)
  have m2: "hd (tl ?fs) \<in> set ?fs" by (simp add: example_defs form_defs js_defs)
  have ty2: "type' (hd (tl ?fs)) = ''attachment''" by (simp add: example_defs form_defs js_defs)
  have nm2: "name (hd (tl ?fs)) = ''none''" by (simp add: example_defs form_defs js_defs)
  have v2: "value' (fieldState (hd (tl ?fs))) = Arr 5 []"
    by (simp add: example_defs form_defs js_defs)
  have no: "\<not> (\<exists>f \<in> set ?fs. type' f = ''attachment'' \<and> ''title_first'' = name f @ ''_first'')"
    by (simp add: example_defs form_defs js_defs)
  note spec = enrichments_spec [OF re, of Undefined 2 "[Obj 4 [(''url'', Str ''b'')]]" 3 "Str ''a''"]
  from spec m ty
  have "map_of (deriveBindingEnrichments ?fs) (name (hd ?fs) @ ''_first'') =
          Some (first_url (value' (fieldState (hd ?fs))))"
    by blast
  moreover from spec have "first_url (Arr 2 (Obj 3 [(''url'', Str ''a'')] #
                                       [Obj 4 [(''url'', Str ''b'')]])) = Str ''a''"
    by blast
  ultimately have a: "map_of (deriveBindingEnrichments ?fs) ''files_first'' = Some (Str ''a'')"
    by (simp add: nm v)
  from enrichments_spec [OF re, of Undefined 5 "[]" 0 Undefined] m2 ty2
  have "map_of (deriveBindingEnrichments ?fs) (name (hd (tl ?fs)) @ ''_first'') =
          Some (first_url (value' (fieldState (hd (tl ?fs)))))"
    and "first_url (Arr 5 []) = Null"
    by blast+
  then have b: "map_of (deriveBindingEnrichments ?fs) ''none_first'' = Some Null"
    by (simp add: nm2 v2)
  from spec no
  have c: "''title_first'' \<notin> set (map fst (deriveBindingEnrichments ?fs))"
    by blast
  from re m ty nm v a b c show ?thesis by blast
qed

text \<open>
  Claim C10.  \<^verbatim>\<open>registerField\<close> resolves the initial value of a field by the deep lookup
  of its name in \<^verbatim>\<open>initialValues\<close>, \<^verbatim>\<open>clearValue\<close> by the literal key.  So when
  \<^verbatim>\<open>initialValues\<close> is an object that has a value at the nested path of the name and no
  key equal to the name, a first registration gives the field the nested value, and
  \<^verbatim>\<open>clearValue()\<close> then sets the field to its \<^verbatim>\<open>defaultValue\<close>, not to the nested value.
\<close>

theorem clearValue_ignores_nested_initialValue:
  assumes ne: "n \<noteq> []"
    and obj: "initialValues s = Obj r ps"
    and nokey: "map_of ps n = None"
    and nested: "\<not> nullish (deepGet (Obj r ps) n)"
    and new: "getField (fields' s) n = None"
  shows "\<exists>f s1 s2. registerField s uuid (Some n) t d fd vr st = (Some f, s1) \<and>
           getField (fields' s1) n = Some f \<and>
           value' (fieldState f) = deepGet (Obj r ps) n \<and>
           clearValue s1 n = Inr s2 \<and>
           map_option (\<lambda>f. value' (fieldState f)) (getField (fields' s2) n) = Some (default_null d)"
proof -
  let ?res = "registerField s uuid (Some n) t d fd vr st"
  obtain f s1 where r: "?res = (Some f, s1)"
    and f: "getField (fields' s1) n = Some f"
    and v: "value' (fieldState f) = deepGet (Obj r ps) n"
    and dv: "defaultValue (fieldState f) = default_null d"
    and iv1: "initialValues s1 = Obj r ps"
    using new nested obj
    by (simp add: registerField_new [OF new ne] Let_def getField_append coalesce_def)
  have idx: "js_index (initialValues s1) n = Inr Undefined"
    using nokey by (simp add: iv1 js_index_def obj_get_def)
  from clearValue_run [OF f idx]
  have "clearValue s1 n = Inr (s1\<lparr>ticks := Suc (ticks s1),
            fields' := update_field n
               (\<lambda>st. st\<lparr>value' := coalesce Undefined (defaultValue (fieldState f)), error := Null,
                         lastUpdate := now s1 (ticks s1)\<rparr>) (fields' s1)\<rparr>)" .
  then show ?thesis using r f v dv
    by (simp add: getField_update_field coalesce_def)
qed

text \<open>
  With \<^verbatim>\<open>initialValues = {x: {y: 7}}\<close>, registering \<^verbatim>\<open>x.y\<close> without a default gives the
  field the value 7, and clearing it gives \<open>null\<close>.
\<close>

theorem clearValue_ignores_nested_initialValue_witness:
  "''x.y'' \<noteq> [] \<and>
   initialValues example_nested = Obj 1 [(''x'', Obj 2 [(''y'', N 7)])] \<and>
   map_of [(''x'', Obj 2 [(''y'', N 7)])] ''x.y'' = None \<and>
   deepGet (Obj 1 [(''x'', Obj 2 [(''y'', N 7)])]) ''x.y'' = N 7 \<and>
   getField (fields' example_nested) ''x.y'' = None \<and>
   (\<exists>f s1 s2. registerField example_nested ''u1'' (Some ''x.y'') ''number'' Undefined False
                 Undefined 1 = (Some f, s1) \<and>
              value' (fieldState f) = N 7 \<and>
              clearValue s1 ''x.y'' = Inr s2 \<and>
              map_option (\<lambda>f. value' (fieldState f)) (getField (fields' s2) ''x.y'') = Some Null)"
proof -
  have ne: "''x.y'' \<noteq> []" by simp
  have iv: "initialValues example_nested = Obj 1 [(''x'', Obj 2 [(''y'', N 7)])]"
    by (simp add: example_defs)
  have nk: "map_of [(''x'', Obj 2 [(''y'', N 7)])] ''x.y'' = None" by simp
  have dg: "deepGet (Obj 1 [(''x'', Obj 2 [(''y'', N 7)])]) ''x.y'' = N 7"
    by (simp add: js_defs)
  have nn: "\<not> nullish (deepGet (Obj 1 [(''x'', Obj 2 [(''y'', N 7)])]) ''x.y'')"
    unfolding dg by simp
  have new: "getField (fields' example_nested) ''x.y'' = None"
    by (simp add: example_defs form_defs)
  from clearValue_ignores_nested_initialValue
         [OF ne iv nk nn new, of "''u1''" "''number''" Undefined False Undefined 1]
  obtain f s1 s2 where
    r: "registerField example_nested ''u1'' (Some ''x.y'') ''number'' Undefined False
          Undefined 1 = (Some f, s1)"
    and v: "value' (fieldState f) = deepGet (Obj 1 [(''x'', Obj 2 [(''y'', N 7)])]) ''x.y''"
    and c: "clearValue s1 ''x.y'' = Inr s2"
    and d: "map_option (\<lambda>f. value' (fieldState f)) (getField (fields' s2) ''x.y'') =
              Some (default_null Undefined)"
    by blast
  have v': "value' (fieldState f) = N 7" using v by (simp only: dg)
  have d': "map_option (\<lambda>f. value' (fieldState f)) (getField (fields' s2) ''x.y'') = Some Null"
    using d by (simp add: default_null_def)
  from ne iv nk dg new r v' c d' show ?thesis by blast
qed
end
